theory Spec2Isabelle
  imports Main "HOL-Library.Multiset" "HOL-Library.Word" "HOL-Library.Monad_Syntax"
begin

section \<open>The chained hash table (hashtable.c)\<close>

text \<open>
  A bucket chain is the list of its nodes in link order: the \<open>next\<close> pointer of a node is
  the node that follows it in the list, and the last node has \<open>next = NULL\<close>. Pointers
  of type \<open>void*\<close> are options, \<open>None\<close> being \<open>NULL\<close>. A pointer to a chain node
  (\<open>ht_node_t*\<close>) is the position of the node in the chain of the bucket the key hashes
  to. The callbacks \<open>compare\<close> and \<open>hash\<close> are fields of the table, as in the struct,
  and receive whatever pointer the code hands them, \<open>NULL\<close> included.

  The counters of type \<open>size_t\<close> are natural numbers. The table doubles through
  \<open>malloc\<close>, whose failure aborts, so a counter never comes near \<open>2^64\<close>; the one place
  where the code can step below zero, \<open>n_values--\<close>, has its wrap-around written out.
  \<open>MAX_LOAD_FACTOR\<close> is the double \<open>1.0\<close>; the product and the comparison of
  \<open>_needs_resize\<close> are exact for counts below \<open>2^53\<close> and are taken over the naturals.
  In \<open>ht_get_index\<close> the C remainder is undefined for a table of size 0; the invariant
  \<open>ht_inv\<close> below asks for a positive size.
\<close>

record ('k, 'v) ht_node =
  node_key :: "'k option"
  node_value :: "'v option"

record ('k, 'v) hashtable =
  ht_size :: nat
  n_values :: nat
  compare :: "'k option \<Rightarrow> 'k option \<Rightarrow> int"
  hash :: "'k option \<Rightarrow> nat"
  table :: "('k, 'v) ht_node list list"

text \<open>Events for callbacks that record what they are called on.\<close>

datatype ('k, 'v) free_call = Free_key "'k option" | Free_value "'v option"

definition INITIAL_TABLE_SIZE :: nat where
  "INITIAL_TABLE_SIZE = 49"

definition MAX_LOAD_FACTOR :: nat where
  "MAX_LOAD_FACTOR = 1"

definition GROWTH_FACTOR :: nat where
  "GROWTH_FACTOR = 2"

definition initialise_table :: "nat \<Rightarrow> ('k, 'v) ht_node list list" where
  "initialise_table sz = replicate sz []"

definition ht_create ::
  "nat \<Rightarrow> ('k option \<Rightarrow> 'k option \<Rightarrow> int) \<Rightarrow> ('k option \<Rightarrow> nat) \<Rightarrow> ('k, 'v) hashtable" where
  "ht_create sz cmp h =
     \<lparr>ht_size = sz, n_values = 0, compare = cmp, hash = h, table = initialise_table sz\<rparr>"

definition ht_get_index :: "('k, 'v) hashtable \<Rightarrow> 'k \<Rightarrow> nat" where
  "ht_get_index ht k = hash ht (Some k) mod ht_size ht"

text \<open>The loop of \<open>ht_get_node\<close>: the position of the first node whose stored key compares
  equal to the probe.\<close>

fun get_node_loop ::
  "('k option \<Rightarrow> 'k option \<Rightarrow> int) \<Rightarrow> 'k \<Rightarrow> ('k, 'v) ht_node list \<Rightarrow> nat option" where
  "get_node_loop cmp k [] = None"
| "get_node_loop cmp k (n # ns) =
     (if cmp (node_key n) (Some k) = 0 then Some 0
      else map_option Suc (get_node_loop cmp k ns))"


definition ht_get_node :: "('k, 'v) hashtable \<Rightarrow> 'k \<Rightarrow> nat option" where
  "ht_get_node ht k = get_node_loop (compare ht) k (table ht ! ht_get_index ht k)"

definition ht_search :: "('k, 'v) hashtable \<Rightarrow> 'k \<Rightarrow> 'v option" where
  "ht_search ht k =
     (case ht_get_node ht k of
        Some p \<Rightarrow> node_value (table ht ! ht_get_index ht k ! p)
      | None \<Rightarrow> None)"

definition ht_get_key :: "('k, 'v) hashtable \<Rightarrow> 'k \<Rightarrow> 'k option" where
  "ht_get_key ht k =
     (case ht_get_node ht k of
        Some p \<Rightarrow> node_key (table ht ! ht_get_index ht k ! p)
      | None \<Rightarrow> None)"

definition ht_contains :: "('k, 'v) hashtable \<Rightarrow> 'k \<Rightarrow> bool" where
  "ht_contains ht k = (case ht_get_node ht k of Some p \<Rightarrow> True | None \<Rightarrow> False)"

definition needs_resize :: "('k, 'v) hashtable \<Rightarrow> bool" where
  "needs_resize ht = (if n_values ht \<ge> ht_size ht * MAX_LOAD_FACTOR then True else False)"

definition ht_copy_insert ::
  "nat \<Rightarrow> ('k option \<Rightarrow> nat) \<Rightarrow> ('k, 'v) ht_node list list \<Rightarrow> ('k, 'v) ht_node
     \<Rightarrow> ('k, 'v) ht_node list list" where
  "ht_copy_insert new_size h new_table node =
     (let index = h (node_key node) mod new_size
      in new_table[index := node # new_table ! index])"

definition copy_ht ::
  "('k, 'v) ht_node list list \<Rightarrow> ('k, 'v) hashtable \<Rightarrow> nat \<Rightarrow> ('k, 'v) ht_node list list" where
  "copy_ht new_table src_ht new_size =
     fold (\<lambda>i nt. fold (\<lambda>node nt'. ht_copy_insert new_size (hash src_ht) nt' node)
                        (table src_ht ! i) nt)
          [0..<ht_size src_ht] new_table"

definition resize_ht :: "('k, 'v) hashtable \<Rightarrow> ('k, 'v) hashtable" where
  "resize_ht ht =
     (let new_size = ht_size ht * GROWTH_FACTOR;
          new_table = copy_ht (initialise_table new_size) ht new_size
      in ht\<lparr>ht_size := new_size, table := new_table\<rparr>)"

definition ht_insert :: "('k, 'v) hashtable \<Rightarrow> 'k \<Rightarrow> 'v option \<Rightarrow> ('k, 'v) hashtable" where
  "ht_insert ht k v =
     (let index = ht_get_index ht k in
      case ht_get_node ht k of
        Some p \<Rightarrow>
          ht\<lparr>table := (table ht)[index := (table ht ! index)[p := (table ht ! index ! p)\<lparr>node_value := v\<rparr>]]\<rparr>
      | None \<Rightarrow>
          (let node = \<lparr>node_key = Some k, node_value = v\<rparr>;
               ht1 = ht\<lparr>table := (table ht)[index := node # table ht ! index],
                        n_values := n_values ht + 1\<rparr>
           in if needs_resize ht1 then resize_ht ht1 else ht1))"

definition ht_unique_insert ::
  "('k, 'v) hashtable \<Rightarrow> 'k \<Rightarrow> 'v option \<Rightarrow> bool \<times> ('k, 'v) hashtable" where
  "ht_unique_insert ht k v =
     (if ht_contains ht k then (False, ht) else (True, ht_insert ht k v))"

text \<open>The optional callbacks \<open>free_key\<close> and \<open>free_value\<close> are optional functions
  into a type of events: \<open>None\<close> is the \<open>NULL\<close> function pointer, and calling \<open>f\<close> on a
  pointer \<open>x\<close> is the event \<open>f x\<close>. An operation that takes callbacks returns the list of
  its calls, in order. \<open>ht_remove\<close> returns its calls and the table. A found node with a successor takes
  over the successor's key, value and link, and the successor is freed; a found node without
  successor stays in the chain with all three fields \<open>NULL\<close>.\<close>

definition ht_remove ::
  "('k, 'v) hashtable \<Rightarrow> 'k \<Rightarrow> ('k option \<Rightarrow> 'e) option \<Rightarrow> ('v option \<Rightarrow> 'e) option
     \<Rightarrow> 'e list \<times> ('k, 'v) hashtable" where
  "ht_remove ht k free_key free_value =
     (case ht_get_node ht k of
        None \<Rightarrow> ([], ht)
      | Some p \<Rightarrow>
          (let index = ht_get_index ht k;
               chain = table ht ! index;
               old_key = node_key (chain ! p);
               old_value = node_value (chain ! p);
               chain' = (if Suc p < length chain
                         then take p chain @ [chain ! Suc p] @ drop (Suc (Suc p)) chain
                         else chain[p := \<lparr>node_key = None, node_value = None\<rparr>]);
               calls = (case free_key of
                          Some f \<Rightarrow> if old_key \<noteq> None then [f old_key] else []
                        | None \<Rightarrow> []) @
                       (case free_value of
                          Some f \<Rightarrow> if old_value \<noteq> None then [f old_value] else []
                        | None \<Rightarrow> [])
           in (calls, ht\<lparr>table := (table ht)[index := chain'],
                         n_values := (if n_values ht = 0 then 2 ^ 64 - 1 else n_values ht - 1)\<rparr>)))"

text \<open>The inner loop of \<open>ht_reset\<close> and of \<open>ht_clean\<close> over one chain: each node's key and
  value go to the callbacks that were supplied, whatever they are.\<close>

definition free_chain ::
  "('k option \<Rightarrow> 'e) option \<Rightarrow> ('v option \<Rightarrow> 'e) option \<Rightarrow> ('k, 'v) ht_node list \<Rightarrow> 'e list" where
  "free_chain free_key free_value chain =
     concat (map (\<lambda>node. (case free_key of Some f \<Rightarrow> [f (node_key node)] | None \<Rightarrow> []) @
                          (case free_value of Some f \<Rightarrow> [f (node_value node)] | None \<Rightarrow> [])) chain)"

definition ht_reset ::
  "('k, 'v) hashtable \<Rightarrow> ('k option \<Rightarrow> 'e) option \<Rightarrow> ('v option \<Rightarrow> 'e) option
     \<Rightarrow> 'e list \<times> ('k, 'v) hashtable" where
  "ht_reset ht free_key free_value =
     (concat (map (\<lambda>i. free_chain free_key free_value (table ht ! i)) [0..<ht_size ht]),
      ht\<lparr>table := fold (\<lambda>i tb. tb[i := []]) [0..<ht_size ht] (table ht), n_values := 0\<rparr>)"


subsection \<open>Well-formed tables\<close>

text \<open>A node matches a probe when \<open>compare\<close>, called as the code calls it (stored key
  first), returns 0.\<close>

definition matches :: "('k option \<Rightarrow> 'k option \<Rightarrow> int) \<Rightarrow> 'k \<Rightarrow> ('k, 'v) ht_node \<Rightarrow> bool" where
  "matches cmp k n \<longleftrightarrow> cmp (node_key n) (Some k) = 0"

text \<open>What the library expects of its callbacks: \<open>compare\<close> returns 0 on an equivalence
  of keys, \<open>hash\<close> agrees on equivalent keys, and \<open>compare\<close> reports a \<open>NULL\<close> stored
  key as different from every probe.\<close>

definition callbacks_ok :: "('k option \<Rightarrow> 'k option \<Rightarrow> int) \<Rightarrow> ('k option \<Rightarrow> nat) \<Rightarrow> bool" where
  "callbacks_ok cmp h \<longleftrightarrow>
     (\<forall>a. cmp (Some a) (Some a) = 0) \<and>
     (\<forall>a b. cmp (Some a) (Some b) = 0 \<longrightarrow> cmp (Some b) (Some a) = 0) \<and>
     (\<forall>a b c. cmp (Some a) (Some b) = 0 \<longrightarrow> cmp (Some b) (Some c) = 0 \<longrightarrow> cmp (Some a) (Some c) = 0) \<and>
     (\<forall>a b. cmp (Some a) (Some b) = 0 \<longrightarrow> h (Some a) = h (Some b)) \<and>
     (\<forall>b. cmp None (Some b) \<noteq> 0)"

definition live :: "('k, 'v) ht_node \<Rightarrow> bool" where
  "live n \<longleftrightarrow> node_key n \<noteq> None"

text \<open>The invariant of a table: a positive number of buckets, every stored key in the
  bucket it hashes to, at most one node for a probe, and \<open>n_values\<close> counting the nodes
  that hold a key.\<close>

definition ht_inv :: "('k, 'v) hashtable \<Rightarrow> bool" where
  "ht_inv ht \<longleftrightarrow>
     0 < ht_size ht \<and> length (table ht) = ht_size ht \<and>
     callbacks_ok (compare ht) (hash ht) \<and>
     (\<forall>i<ht_size ht. \<forall>n\<in>set (table ht ! i). live n \<longrightarrow> hash ht (node_key n) mod ht_size ht = i) \<and>
     (\<forall>k. length (filter (matches (compare ht) k) (concat (table ht))) \<le> 1) \<and>
     n_values ht = length (filter live (concat (table ht)))"

text \<open>The nodes of a table, as a multiset: what the traversal of all chains meets.\<close>

definition ht_nodes :: "('k, 'v) hashtable \<Rightarrow> ('k, 'v) ht_node multiset" where
  "ht_nodes ht = mset (concat (table ht))"

text \<open>Auxiliary notions of the proofs: a bucket array in which every node lies where its
  key hashes to; the table right after \<open>ht_insert\<close> has linked a new node, before the
  resize check; the node that \<open>ht_remove\<close> leaves behind; and the chain after
  \<open>ht_remove\<close> took out the node at position \<open>p\<close>.\<close>

definition placed :: "nat \<Rightarrow> ('k option \<Rightarrow> nat) \<Rightarrow> ('k, 'v) ht_node list list \<Rightarrow> bool" where
  "placed m h tb \<longleftrightarrow> length tb = m \<and> (\<forall>j<m. \<forall>n\<in>set (tb ! j). h (node_key n) mod m = j)"

definition linked :: "('k, 'v) hashtable \<Rightarrow> 'k \<Rightarrow> 'v option \<Rightarrow> ('k, 'v) hashtable" where
  "linked ht k v =
     ht\<lparr>table := (table ht)[ht_get_index ht k :=
            \<lparr>node_key = Some k, node_value = v\<rparr> # table ht ! ht_get_index ht k],
        n_values := n_values ht + 1\<rparr>"

definition null_node :: "('k, 'v) ht_node" where
  "null_node = \<lparr>node_key = None, node_value = None\<rparr>"

definition spliced :: "('k, 'v) ht_node list \<Rightarrow> nat \<Rightarrow> ('k, 'v) ht_node list" where
  "spliced chain p =
     (if Suc p < length chain then take p chain @ [chain ! Suc p] @ drop (Suc (Suc p)) chain
      else chain[p := null_node])"

subsection \<open>Sequences of calls\<close>

text \<open>A call of \<open>ht_insert\<close> or of \<open>ht_remove\<close> (with its two optional callbacks), and
  the table after a sequence of calls.\<close>

datatype ('k, 'v, 'e) ht_op =
  Insert 'k "'v option" | Remove 'k "('k option \<Rightarrow> 'e) option" "('v option \<Rightarrow> 'e) option"

fun ht_apply :: "('k, 'v, 'e) ht_op \<Rightarrow> ('k, 'v) hashtable \<Rightarrow> ('k, 'v) hashtable" where
  "ht_apply (Insert k v) ht = ht_insert ht k v"
| "ht_apply (Remove k fk fv) ht = snd (ht_remove ht k fk fv)"

definition ht_run :: "('k, 'v, 'e) ht_op list \<Rightarrow> ('k, 'v) hashtable \<Rightarrow> ('k, 'v) hashtable" where
  "ht_run ops ht = fold ht_apply ops ht"

fun op_key :: "('k, 'v, 'e) ht_op \<Rightarrow> 'k" where
  "op_key (Insert k v) = k"
| "op_key (Remove k fk fv) = k"

text \<open>Whether a key counts as inserted and not removed since, after a sequence of calls
  that starts with the key present (\<open>b\<close>) or absent.\<close>

fun inserted_not_removed ::
  "('k option \<Rightarrow> 'k option \<Rightarrow> int) \<Rightarrow> 'k \<Rightarrow> ('k, 'v, 'e) ht_op list \<Rightarrow> bool \<Rightarrow> bool" where
  "inserted_not_removed cmp k [] b = b"
| "inserted_not_removed cmp k (Insert k0 v # ops) b =
     inserted_not_removed cmp k ops (b \<or> cmp (Some k0) (Some k) = 0)"
| "inserted_not_removed cmp k (Remove k0 fk fv # ops) b =
     inserted_not_removed cmp k ops (b \<and> cmp (Some k0) (Some k) \<noteq> 0)"

text \<open>A list of keys no two of which compare equal, and the table after inserting a list
  of key-value pairs in order.\<close>

fun distinct_keys :: "('k option \<Rightarrow> 'k option \<Rightarrow> int) \<Rightarrow> 'k list \<Rightarrow> bool" where
  "distinct_keys cmp [] = True"
| "distinct_keys cmp (k # ks) = (list_all (\<lambda>k'. cmp (Some k) (Some k') \<noteq> 0) ks \<and> distinct_keys cmp ks)"

definition insert_all :: "('k \<times> 'v option) list \<Rightarrow> ('k, 'v) hashtable \<Rightarrow> ('k, 'v) hashtable" where
  "insert_all kvs ht = fold (\<lambda>(k, v) t. ht_insert t k v) kvs ht"


text \<open>Callbacks for keys that are numbers, used in the examples: comparison by equality,
  with a \<open>NULL\<close> key different from every key, and the identity as hash.\<close>

definition nat_compare :: "nat option \<Rightarrow> nat option \<Rightarrow> int" where
  "nat_compare a b = (if a = b then 0 else 1)"

definition nat_hash :: "nat option \<Rightarrow> nat" where
  "nat_hash k = (case k of None \<Rightarrow> 0 | Some n \<Rightarrow> n)"

text \<open>Callbacks for keys that are objects with an identity and a content (a pair), compared
  and hashed by content: two key objects can be equal for the table and still be two
  objects.\<close>

definition obj_compare :: "(nat \<times> nat) option \<Rightarrow> (nat \<times> nat) option \<Rightarrow> int" where
  "obj_compare a b =
     (case a of None \<Rightarrow> 1
      | Some x \<Rightarrow> (case b of None \<Rightarrow> 1 | Some y \<Rightarrow> if snd x = snd y then 0 else 1))"

definition obj_hash :: "(nat \<times> nat) option \<Rightarrow> nat" where
  "obj_hash k = (case k of None \<Rightarrow> 0 | Some x \<Rightarrow> snd x)"

text \<open>Callbacks of the examples, for tables from numbers to numbers: one that records the
  key it is called on, one that records the value, and the \<open>NULL\<close> callback.\<close>

definition record_key :: "(nat option \<Rightarrow> (nat, nat) free_call) option" where
  "record_key = Some Free_key"

definition record_value :: "(nat option \<Rightarrow> (nat, nat) free_call) option" where
  "record_value = Some Free_value"

definition no_callback :: "(nat option \<Rightarrow> (nat, nat) free_call) option" where
  "no_callback = None"


section \<open>The doubly linked list (dlinkedlist.c)\<close>

text \<open>
  The nodes of a list live in memory of their own, carried with the list: \<open>cells\<close> maps an
  address (an index) to the node stored there, \<open>None\<close> once the node is freed; \<open>malloc\<close>
  returns the next unused address. \<open>head\<close>, \<open>tail\<close>, \<open>prev\<close> and \<open>next\<close> are
  addresses or \<open>NULL\<close>. Reading or writing through an address that holds no node is
  undefined in C; here the operation fails, with result \<open>None\<close>.
\<close>

record 'a DLL_node =
  dll_data :: "'a option"
  dll_prev :: "nat option"
  dll_next :: "nat option"

record 'a DLL =
  head :: "nat option"
  tail :: "nat option"
  cells :: "'a DLL_node option list"

definition node_at :: "'n option list \<Rightarrow> nat \<Rightarrow> 'n option" where
  "node_at cs a = (if a < length cs then cs ! a else None)"

definition DLL_create :: "'a DLL" where
  "DLL_create = \<lparr>head = None, tail = None, cells = []\<rparr>"

definition DLL_insert_tail :: "'a DLL \<Rightarrow> 'a option \<Rightarrow> 'a DLL option" where
  "DLL_insert_tail dll x = do {
     let node = length (cells dll);
     let cs = cells dll @ [Some \<lparr>dll_data = x, dll_prev = tail dll, dll_next = None\<rparr>];
     cs' \<leftarrow> (case tail dll of
               Some t \<Rightarrow> do { n \<leftarrow> node_at cs t; Some (cs[t := Some (n\<lparr>dll_next := Some node\<rparr>)]) }
             | None \<Rightarrow> Some cs);
     Some \<lparr>head = (if head dll = None then Some node else head dll), tail = Some node, cells = cs'\<rparr>
   }"




definition DLL_is_empty :: "'a DLL \<Rightarrow> bool" where
  "DLL_is_empty dll = (if head dll = None \<and> tail dll = None then True else False)"

subsection \<open>Well-formed lists\<close>

text \<open>\<open>dll_chain cs p c as l\<close>: starting at \<open>c\<close>, with \<open>p\<close> the node before, the \<open>next\<close>
  links run through the addresses \<open>as\<close> and end with \<open>NULL\<close>, every \<open>prev\<close> link points
  one node back, and \<open>l\<close> is the last node.\<close>

fun dll_chain :: "'a DLL_node option list \<Rightarrow> nat option \<Rightarrow> nat option \<Rightarrow> nat list \<Rightarrow> nat option \<Rightarrow> bool" where
  "dll_chain cs p c [] l = (c = None \<and> l = p)"
| "dll_chain cs p c (a # as) l =
     (c = Some a \<and>
      (case node_at cs a of
         None \<Rightarrow> False
       | Some n \<Rightarrow> dll_prev n = p \<and> dll_chain cs (Some a) (dll_next n) as l))"

definition dll_inv :: "'a DLL \<Rightarrow> nat list \<Rightarrow> bool" where
  "dll_inv dll as \<longleftrightarrow> distinct as \<and> dll_chain (cells dll) None (head dll) as (tail dll)"

definition data_at :: "'a DLL_node option list \<Rightarrow> nat \<Rightarrow> 'a option" where
  "data_at cs a = (case node_at cs a of Some n \<Rightarrow> dll_data n | None \<Rightarrow> None)"

definition dll_items :: "'a DLL \<Rightarrow> nat list \<Rightarrow> 'a option list" where
  "dll_items dll as = map (data_at (cells dll)) as"

subsection \<open>The list with an index (DLL_HT)\<close>






subsection \<open>Sequences of calls on the list with an index\<close>












definition index_nodes :: "'k list \<Rightarrow> nat list \<Rightarrow> ('k, nat) ht_node list" where
  "index_nodes ks as = map2 (\<lambda>k a. \<lparr>node_key = Some k, node_value = Some a\<rparr>) ks as"



section \<open>The resource allocation graph (RAG.c)\<close>

text \<open>
  A key (\<open>ckey_t\<close>) is a record of its type and its id. The \<open>RAG_node\<close> objects live in
  \<open>node_mem\<close>, addressed like the nodes of a list; \<open>next\<close> and \<open>_prev\<close> (here
  \<open>rag_prev\<close>) are addresses of \<open>RAG_node\<close> objects or \<open>NULL\<close>, and the values of the node
  table are such addresses. The field \<open>ht\<close> of the struct is \<open>rag_ht\<close>. The two counters
  are 64-bit words. An operation that reads or writes through an address holding no node
  fails, with result \<open>None\<close>.
\<close>

datatype type_t = PROCESS_T | RESOURCE_T

datatype status_t = ADDED_NODE | UPDATED_NEXT | UPDATED_DATA | UPDATED_NEXT_DATA | NO_UPDATE

record 'i ckey =
  key_type :: type_t
  key_id :: 'i

record ('i, 'd) RAG_node =
  rag_key :: "'i ckey"
  rag_data :: "'d option"
  rag_prev :: "nat option"
  rag_next :: "nat option"

record ('i, 'd) RAG =
  rag_ht :: "('i ckey, nat) hashtable"
  proc_key_list :: "'i ckey DLL"
  res_key_list :: "'i ckey DLL"
  n_processes :: "64 word"
  n_resources :: "64 word"
  node_mem :: "('i, 'd) RAG_node option list"

definition RAG_create ::
  "('i ckey option \<Rightarrow> 'i ckey option \<Rightarrow> int) \<Rightarrow> ('i ckey option \<Rightarrow> nat) \<Rightarrow> ('i, 'd) RAG" where
  "RAG_create cmp h =
     \<lparr>rag_ht = ht_create INITIAL_TABLE_SIZE cmp h,
      proc_key_list = DLL_create, res_key_list = DLL_create,
      n_processes = 0, n_resources = 0, node_mem = []\<rparr>"

definition RAG_create_node ::
  "'i ckey \<Rightarrow> 'd option \<Rightarrow> nat option \<Rightarrow> ('i, 'd) RAG_node option list
     \<Rightarrow> nat \<times> ('i, 'd) RAG_node option list" where
  "RAG_create_node key data next_node mem =
     (length mem,
      mem @ [Some \<lparr>rag_key = key, rag_data = data, rag_prev = None, rag_next = next_node\<rparr>])"

definition RAG_DLL_insert :: "('i, 'd) RAG \<Rightarrow> 'i ckey \<Rightarrow> ('i, 'd) RAG option" where
  "RAG_DLL_insert rag key =
     (if key_type key = PROCESS_T
      then do { l \<leftarrow> DLL_insert_tail (proc_key_list rag) (Some key); Some (rag\<lparr>proc_key_list := l\<rparr>) }
      else do { l \<leftarrow> DLL_insert_tail (res_key_list rag) (Some key); Some (rag\<lparr>res_key_list := l\<rparr>) })"

definition RAG_increment :: "('i, 'd) RAG \<Rightarrow> type_t \<Rightarrow> ('i, 'd) RAG" where
  "RAG_increment rag ty =
     (if ty = PROCESS_T then rag\<lparr>n_processes := n_processes rag + 1\<rparr>
      else rag\<lparr>n_resources := n_resources rag + 1\<rparr>)"

definition RAG_decrement :: "('i, 'd) RAG \<Rightarrow> type_t \<Rightarrow> ('i, 'd) RAG" where
  "RAG_decrement rag ty =
     (if ty = PROCESS_T \<and> n_processes rag > 0 then rag\<lparr>n_processes := n_processes rag - 1\<rparr>
      else if ty = RESOURCE_T \<and> n_resources rag > 0 then rag\<lparr>n_resources := n_resources rag - 1\<rparr>
      else rag)"

definition RAG_insert ::
  "('i, 'd) RAG \<Rightarrow> 'i ckey \<Rightarrow> 'd option \<Rightarrow> nat option \<Rightarrow> (status_t \<times> ('i, 'd) RAG) option" where
  "RAG_insert rag key data next_node =
     (case ht_get_node (rag_ht rag) key of
        None \<Rightarrow> do {
          let created = RAG_create_node key data next_node (node_mem rag);
          let node = fst created;
          let t = snd (ht_unique_insert (rag_ht rag) key (Some node));
          rag1 \<leftarrow> RAG_DLL_insert (rag\<lparr>rag_ht := t, node_mem := snd created\<rparr>) key;
          n \<leftarrow> node_at (node_mem rag1) node;
          Some (ADDED_NODE, RAG_increment rag1 (key_type (rag_key n)))
        }
      | Some p \<Rightarrow> do {
          node \<leftarrow> node_value (table (rag_ht rag) ! ht_get_index (rag_ht rag) key ! p);
          n \<leftarrow> node_at (node_mem rag) node;
          if (next_node \<noteq> None \<and> rag_next n = None) \<and> (data \<noteq> None \<and> rag_data n = None)
          then Some (UPDATED_NEXT_DATA,
                     rag\<lparr>node_mem := (node_mem rag)[node := Some (n\<lparr>rag_next := next_node, rag_data := data\<rparr>)]\<rparr>)
          else if next_node \<noteq> None \<and> rag_next n = None
          then Some (UPDATED_NEXT, rag\<lparr>node_mem := (node_mem rag)[node := Some (n\<lparr>rag_next := next_node\<rparr>)]\<rparr>)
          else if data \<noteq> None \<and> rag_data n = None
          then Some (UPDATED_DATA, rag\<lparr>node_mem := (node_mem rag)[node := Some (n\<lparr>rag_data := data\<rparr>)]\<rparr>)
          else Some (NO_UPDATE, rag)
        })"

definition RAG_hard_insert ::
  "('i, 'd) RAG \<Rightarrow> 'i ckey \<Rightarrow> 'd option \<Rightarrow> nat option \<Rightarrow> (status_t \<times> ('i, 'd) RAG) option" where
  "RAG_hard_insert rag key data next_node =
     (case ht_get_node (rag_ht rag) key of
        None \<Rightarrow> do {
          let created = RAG_create_node key data next_node (node_mem rag);
          let node = fst created;
          let t = snd (ht_unique_insert (rag_ht rag) key (Some node));
          rag1 \<leftarrow> RAG_DLL_insert (rag\<lparr>rag_ht := t, node_mem := snd created\<rparr>) key;
          n \<leftarrow> node_at (node_mem rag1) node;
          Some (ADDED_NODE, RAG_increment rag1 (key_type (rag_key n)))
        }
      | Some p \<Rightarrow> do {
          node \<leftarrow> node_value (table (rag_ht rag) ! ht_get_index (rag_ht rag) key ! p);
          n \<leftarrow> node_at (node_mem rag) node;
          if next_node \<noteq> None \<and> data \<noteq> None
          then Some (UPDATED_NEXT_DATA,
                     rag\<lparr>node_mem := (node_mem rag)[node := Some (n\<lparr>rag_next := next_node, rag_data := data\<rparr>)]\<rparr>)
          else if next_node \<noteq> None
          then Some (UPDATED_NEXT, rag\<lparr>node_mem := (node_mem rag)[node := Some (n\<lparr>rag_next := next_node\<rparr>)]\<rparr>)
          else if data \<noteq> None
          then Some (UPDATED_DATA, rag\<lparr>node_mem := (node_mem rag)[node := Some (n\<lparr>rag_data := data\<rparr>)]\<rparr>)
          else Some (NO_UPDATE, rag)
        })"

text \<open>One of the two loops of \<open>RAG_convert_to_undirected\<close>, from the list node \<open>cur\<close> on:
  the key of the list node is looked up, and if the graph node found has a \<open>next\<close>, the
  \<open>_prev\<close> of that next node is set to the graph node.\<close>

partial_function (option) undirected_loop ::
  "'i ckey DLL \<Rightarrow> ('i ckey, nat) hashtable \<Rightarrow> nat option \<Rightarrow> ('i, 'd) RAG_node option list
     \<Rightarrow> ('i, 'd) RAG_node option list option" where
  "undirected_loop dll t cur mem =
     (case cur of
        None \<Rightarrow> Some mem
      | Some a \<Rightarrow> do {
          dn \<leftarrow> node_at (cells dll) a;
          key \<leftarrow> dll_data dn;
          node \<leftarrow> ht_search t key;
          n \<leftarrow> node_at mem node;
          mem' \<leftarrow> (case rag_next n of
                     Some b \<Rightarrow> do { m \<leftarrow> node_at mem b; Some (mem[b := Some (m\<lparr>rag_prev := Some node\<rparr>)]) }
                   | None \<Rightarrow> Some mem);
          undirected_loop dll t (dll_next dn) mem'
        })"

definition RAG_convert_to_undirected :: "('i, 'd) RAG \<Rightarrow> ('i, 'd) RAG option" where
  "RAG_convert_to_undirected rag = do {
     mem1 \<leftarrow> undirected_loop (proc_key_list rag) (rag_ht rag) (head (proc_key_list rag)) (node_mem rag);
     mem2 \<leftarrow> undirected_loop (res_key_list rag) (rag_ht rag) (head (res_key_list rag)) mem1;
     Some (rag\<lparr>node_mem := mem2\<rparr>)
   }"

subsection \<open>Well-formed graphs\<close>

text \<open>\<open>rag_inv rag ps rs\<close>: the node table is well formed; the two order lists are well
  formed and hold the keys \<open>ps\<close> and \<open>rs\<close>, in this order; the keys of \<open>ps\<close> are
  processes and those of \<open>rs\<close> are not; no two keys of the lists compare equal; a key is in
  the node table exactly when it compares equal to a key of the lists; and every value of
  the node table is the address of a \<open>RAG_node\<close>.\<close>

definition rag_inv :: "('i, 'd) RAG \<Rightarrow> 'i ckey list \<Rightarrow> 'i ckey list \<Rightarrow> bool" where
  "rag_inv rag ps rs \<longleftrightarrow>
     ht_inv (rag_ht rag) \<and>
     (\<exists>aps. dll_inv (proc_key_list rag) aps \<and> dll_items (proc_key_list rag) aps = map Some ps) \<and>
     (\<exists>ars. dll_inv (res_key_list rag) ars \<and> dll_items (res_key_list rag) ars = map Some rs) \<and>
     list_all (\<lambda>k. key_type k = PROCESS_T) ps \<and>
     list_all (\<lambda>k. key_type k \<noteq> PROCESS_T) rs \<and>
     distinct_keys (compare (rag_ht rag)) (ps @ rs) \<and>
     (\<forall>k. ht_contains (rag_ht rag) k \<longleftrightarrow>
          (\<exists>k0\<in>set (ps @ rs). compare (rag_ht rag) (Some k0) (Some k) = 0)) \<and>
     (\<forall>n\<in>#ht_nodes (rag_ht rag). live n \<longrightarrow>
          (\<exists>a. node_value n = Some a \<and> node_at (node_mem rag) a \<noteq> None))"

text \<open>Every \<open>next\<close> edge in memory leads to a \<open>RAG_node\<close>.\<close>

definition edges_valid :: "('i, 'd) RAG_node option list \<Rightarrow> bool" where
  "edges_valid mem \<longleftrightarrow>
     list_all (\<lambda>x. case x of
        None \<Rightarrow> True
      | Some n \<Rightarrow> (case rag_next n of None \<Rightarrow> True | Some b \<Rightarrow> node_at mem b \<noteq> None)) mem"

text \<open>The step of \<open>RAG_convert_to_undirected\<close> at the graph node \<open>a\<close>, and the graph nodes
  of a list of keys, in order.\<close>

definition set_prev :: "('i, 'd) RAG_node option list \<Rightarrow> nat \<Rightarrow> ('i, 'd) RAG_node option list" where
  "set_prev mem a =
     (case node_at mem a of
        None \<Rightarrow> mem
      | Some n \<Rightarrow>
          (case rag_next n of
             None \<Rightarrow> mem
           | Some b \<Rightarrow> (case node_at mem b of
                          None \<Rightarrow> mem
                        | Some m \<Rightarrow> mem[b := Some (m\<lparr>rag_prev := Some a\<rparr>)])))"

definition node_order :: "('i ckey, nat) hashtable \<Rightarrow> 'i ckey list \<Rightarrow> nat list" where
  "node_order t ks = List.map_filter (ht_search t) ks"

text \<open>The nodes of a list of addresses whose \<open>next\<close> edge leads to \<open>b\<close>.\<close>

definition pointing_to :: "('i, 'd) RAG_node option list \<Rightarrow> nat \<Rightarrow> nat list \<Rightarrow> nat list" where
  "pointing_to mem b as =
     filter (\<lambda>a. case node_at mem a of None \<Rightarrow> False | Some n \<Rightarrow> rag_next n = Some b) as"

subsection \<open>Sequences of calls\<close>

datatype ('i, 'd) RAG_op =
  Op_insert "'i ckey" "'d option" "nat option"
| Op_hard_insert "'i ckey" "'d option" "nat option"
| Op_increment type_t
| Op_decrement type_t

fun RAG_apply :: "('i, 'd) RAG_op \<Rightarrow> ('i, 'd) RAG \<Rightarrow> ('i, 'd) RAG option" where
  "RAG_apply (Op_insert key data next_node) rag = map_option snd (RAG_insert rag key data next_node)"
| "RAG_apply (Op_hard_insert key data next_node) rag = map_option snd (RAG_hard_insert rag key data next_node)"
| "RAG_apply (Op_increment ty) rag = Some (RAG_increment rag ty)"
| "RAG_apply (Op_decrement ty) rag = Some (RAG_decrement rag ty)"

fun RAG_run :: "('i, 'd) RAG_op list \<Rightarrow> ('i, 'd) RAG \<Rightarrow> ('i, 'd) RAG option" where
  "RAG_run [] rag = Some rag"
| "RAG_run (x # ops) rag = (case RAG_apply x rag of None \<Rightarrow> None | Some rag' \<Rightarrow> RAG_run ops rag')"

fun is_insert :: "('i, 'd) RAG_op \<Rightarrow> bool" where
  "is_insert (Op_insert key data next_node) = True"
| "is_insert (Op_hard_insert key data next_node) = True"
| "is_insert (Op_increment ty) = False"
| "is_insert (Op_decrement ty) = False"

text \<open>Callbacks of the examples, for keys whose id is a number: comparison of type and id,
  with a \<open>NULL\<close> key different from every key, and a hash of the id.\<close>

definition ckey_compare :: "nat ckey option \<Rightarrow> nat ckey option \<Rightarrow> int" where
  "ckey_compare a b = (if a = b then 0 else 1)"

definition ckey_hash :: "nat ckey option \<Rightarrow> nat" where
  "ckey_hash k = (case k of None \<Rightarrow> 0 | Some c \<Rightarrow> key_id c)"


section \<open>Properties of the hash table\<close>

subsection \<open>The lookup loop\<close>

lemma get_node_loop_find:
  "map_option (\<lambda>p. c ! p) (get_node_loop cmp k c) = find (matches cmp k) c"
  by (induction c) (auto simp: matches_def option.map_comp comp_def)

lemma get_node_loop_Some:
  "get_node_loop cmp k c = Some p \<Longrightarrow>
     p < length c \<and> matches cmp k (c ! p) \<and> (\<forall>q<p. \<not> matches cmp k (c ! q))"
proof (induction c arbitrary: p)
  case Nil
  then show ?case by simp
next
  case (Cons n ns)
  show ?case
  proof (cases "cmp (node_key n) (Some k) = 0")
    case True
    with Cons.prems show ?thesis by (simp add: matches_def)
  next
    case False
    with Cons.prems obtain p' where p': "get_node_loop cmp k ns = Some p'" "p = Suc p'"
      by auto
    from Cons.IH[OF p'(1)] False p'(2) show ?thesis
      by (auto simp: matches_def less_Suc_eq_0_disj)
  qed
qed

lemma get_node_loop_None:
  "get_node_loop cmp k c = None \<longleftrightarrow> (\<forall>n\<in>set c. \<not> matches cmp k n)"
  by (induction c) (auto simp: matches_def)

lemma get_node_loop_keys:
  "map node_key c1 = map node_key c2 \<Longrightarrow> get_node_loop cmp k c1 = get_node_loop cmp k c2"
proof (induction c1 arbitrary: c2)
  case Nil
  then show ?case by simp
next
  case (Cons n ns)
  then obtain m ms where c2: "c2 = m # ms" by (cases c2) auto
  with Cons show ?case by auto
qed

text \<open>A probe that matches at most one node of a chain is found at that node.\<close>

lemma get_node_loop_unique:
  assumes "length (filter (matches cmp k) c) \<le> 1" "p < length c" "matches cmp k (c ! p)"
  shows "get_node_loop cmp k c = Some p"
  using assms
proof (induction c arbitrary: p)
  case Nil
  then show ?case by simp
next
  case (Cons n ns)
  show ?case
  proof (cases p)
    case 0
    with Cons.prems show ?thesis by (simp add: matches_def)
  next
    case (Suc q)
    with Cons.prems have q: "q < length ns" "matches cmp k (ns ! q)" by auto
    then have "ns ! q \<in> set (filter (matches cmp k) ns)" by simp
    then have "filter (matches cmp k) ns \<noteq> []" by (metis empty_iff list.set(1))
    then have pos: "0 < length (filter (matches cmp k) ns)" by simp
    with Cons.prems(1) have nm: "\<not> matches cmp k n" by (auto split: if_splits)
    with Cons.prems(1) have "length (filter (matches cmp k) ns) \<le> 1" by simp
    from Cons.IH[OF this q] nm Suc show ?thesis by (simp add: matches_def)
  qed
qed

lemma concat_nth_split:
  "i < length xs \<Longrightarrow> concat xs = concat (take i xs) @ xs ! i @ concat (drop (Suc i) xs)"
  by (metis concat.simps(2) concat_append id_take_nth_drop)

lemma concat_update_split:
  "i < length xs \<Longrightarrow> concat (xs[i := c]) = concat (take i xs) @ c @ concat (drop (Suc i) xs)"
  by (simp add: upd_conv_take_nth_drop)

lemma filter_concat_bucket_le:
  "i < length xs \<Longrightarrow> length (filter P (xs ! i)) \<le> length (filter P (concat xs))"
proof -
  assume "i < length xs"
  from concat_nth_split[OF this] have "concat xs = concat (take i xs) @ xs ! i @ concat (drop (Suc i) xs)" .
  then have "length (filter P (concat xs)) =
      length (filter P (concat (take i xs))) + length (filter P (xs ! i)) + length (filter P (concat (drop (Suc i) xs)))"
    by (metis append.assoc filter_append length_append)
  then show ?thesis by simp
qed

lemma length_filter_concat_update:
  "i < length xs \<Longrightarrow>
     length (filter P (concat (xs[i := c]))) + length (filter P (xs ! i)) =
     length (filter P (concat xs)) + length (filter P c)"
proof -
  assume i: "i < length xs"
  from concat_nth_split[OF i] have "concat xs = concat (take i xs) @ xs ! i @ concat (drop (Suc i) xs)" .
  then have "length (filter P (concat xs)) =
      length (filter P (concat (take i xs))) + length (filter P (xs ! i)) + length (filter P (concat (drop (Suc i) xs)))"
    by (metis append.assoc filter_append length_append)
  moreover have "length (filter P (concat (xs[i := c]))) =
      length (filter P (concat (take i xs))) + length (filter P c) + length (filter P (concat (drop (Suc i) xs)))"
    by (simp add: concat_update_split[OF i])
  ultimately show ?thesis by simp
qed


lemma mset_concat_update:
  "i < length xs \<Longrightarrow> mset (concat (xs[i := c])) + mset (xs ! i) = mset (concat xs) + mset c"
proof -
  assume i: "i < length xs"
  have "mset (concat xs) = mset (concat (take i xs)) + mset (xs ! i) + mset (concat (drop (Suc i) xs))"
    by (subst concat_nth_split[OF i]) simp
  moreover have "mset (concat (xs[i := c])) = mset (concat (take i xs)) + mset c + mset (concat (drop (Suc i) xs))"
    by (simp add: concat_update_split[OF i])
  ultimately show ?thesis by simp
qed

lemma in_concat_nth: "n \<in> set (concat xs) \<longleftrightarrow> (\<exists>i<length xs. n \<in> set (xs ! i))"
proof
  assume "n \<in> set (concat xs)"
  then obtain c where c: "c \<in> set xs" "n \<in> set c" by auto
  from c(1) obtain i where "i < length xs" "xs ! i = c" by (auto simp: in_set_conv_nth)
  with c(2) show "\<exists>i<length xs. n \<in> set (xs ! i)" by blast
next
  assume "\<exists>i<length xs. n \<in> set (xs ! i)"
  then obtain i where "i < length xs" "n \<in> set (xs ! i)" by blast
  then show "n \<in> set (concat xs)" using nth_mem by auto
qed

lemma ht_inv_index_less: "ht_inv ht \<Longrightarrow> ht_get_index ht k < length (table ht)"
  by (simp add: ht_inv_def ht_get_index_def)

lemma callbacks_ok_refl: "callbacks_ok cmp h \<Longrightarrow> cmp (Some a) (Some a) = 0"
  unfolding callbacks_ok_def by blast

lemma callbacks_ok_sym: "callbacks_ok cmp h \<Longrightarrow> cmp (Some a) (Some b) = 0 \<Longrightarrow> cmp (Some b) (Some a) = 0"
  unfolding callbacks_ok_def by blast

lemma callbacks_ok_trans:
  "callbacks_ok cmp h \<Longrightarrow> cmp (Some a) (Some b) = 0 \<Longrightarrow> cmp (Some b) (Some c) = 0 \<Longrightarrow>
     cmp (Some a) (Some c) = 0"
  unfolding callbacks_ok_def by blast

lemma callbacks_ok_hash: "callbacks_ok cmp h \<Longrightarrow> cmp (Some a) (Some b) = 0 \<Longrightarrow> h (Some a) = h (Some b)"
  unfolding callbacks_ok_def by blast

lemma callbacks_ok_null: "callbacks_ok cmp h \<Longrightarrow> cmp None (Some b) \<noteq> 0"
  unfolding callbacks_ok_def by blast

lemma matches_live:
  "callbacks_ok cmp h \<Longrightarrow> matches cmp k n \<Longrightarrow> \<exists>k0. node_key n = Some k0 \<and> cmp (Some k0) (Some k) = 0"
  using callbacks_ok_null[of cmp h k] by (cases "node_key n") (auto simp: matches_def)

lemma bucket_of_match:
  assumes "ht_inv ht" "i < ht_size ht" "n \<in> set (table ht ! i)" "matches (compare ht) k n"
  shows "i = ht_get_index ht k"
proof -
  from assms(1) have cb: "callbacks_ok (compare ht) (hash ht)" by (simp add: ht_inv_def)
  from matches_live[OF cb assms(4)] obtain k0 where
    k0: "node_key n = Some k0" "compare ht (Some k0) (Some k) = 0" by blast
  then have "live n" by (simp add: live_def)
  with assms have "hash ht (node_key n) mod ht_size ht = i" by (simp add: ht_inv_def)
  moreover from cb k0(2) have "hash ht (Some k0) = hash ht (Some k)" by (rule callbacks_ok_hash)
  ultimately show ?thesis using k0(1) by (simp add: ht_get_index_def)
qed

lemma ht_inv_unique:
  "ht_inv ht \<Longrightarrow> length (filter (matches (compare ht) k) (concat (table ht))) \<le> 1"
  by (simp add: ht_inv_def)

text \<open>A node of the table that matches the probe is the node every lookup finds.\<close>

lemma ht_get_node_found:
  assumes inv: "ht_inv ht" and n: "n \<in># ht_nodes ht" and m: "matches (compare ht) k n"
  shows "\<exists>p. ht_get_node ht k = Some p \<and> p < length (table ht ! ht_get_index ht k) \<and>
             table ht ! ht_get_index ht k ! p = n"
proof -
  from n have "n \<in> set (concat (table ht))" by (simp add: ht_nodes_def)
  then obtain i where i: "i < length (table ht)" "n \<in> set (table ht ! i)"
    unfolding in_concat_nth by blast
  from inv have len: "length (table ht) = ht_size ht" by (simp add: ht_inv_def)
  from bucket_of_match[OF inv _ i(2) m] i(1) len have ik: "i = ht_get_index ht k" by simp
  from i(2) obtain p where p: "p < length (table ht ! i)" "table ht ! i ! p = n"
    by (auto simp: in_set_conv_nth)
  have "length (filter (matches (compare ht) k) (table ht ! i)) \<le> 1"
    using filter_concat_bucket_le[OF i(1), of "matches (compare ht) k"] ht_inv_unique[OF inv, of k]
    by linarith
  from get_node_loop_unique[OF this p(1)] p(2) m
  have "get_node_loop (compare ht) k (table ht ! i) = Some p" by simp
  with ik p show ?thesis by (auto simp: ht_get_node_def)
qed

lemma ht_get_node_absent:
  assumes inv: "ht_inv ht" and no: "\<forall>n\<in>#ht_nodes ht. \<not> matches (compare ht) k n"
  shows "ht_get_node ht k = None"
proof -
  have "\<forall>n\<in>set (table ht ! ht_get_index ht k). \<not> matches (compare ht) k n"
  proof
    fix n assume "n \<in> set (table ht ! ht_get_index ht k)"
    with ht_inv_index_less[OF inv, of k] have "n \<in> set (concat (table ht))"
      unfolding in_concat_nth by blast
    then have "n \<in># ht_nodes ht" by (simp add: ht_nodes_def)
    with no show "\<not> matches (compare ht) k n" by blast
  qed
  then show ?thesis by (simp add: ht_get_node_def get_node_loop_None)
qed

lemma ht_get_node_SomeD:
  assumes inv: "ht_inv ht" and g: "ht_get_node ht k = Some p"
  shows "p < length (table ht ! ht_get_index ht k) \<and>
         matches (compare ht) k (table ht ! ht_get_index ht k ! p) \<and>
         table ht ! ht_get_index ht k ! p \<in># ht_nodes ht"
proof -
  from g have "get_node_loop (compare ht) k (table ht ! ht_get_index ht k) = Some p"
    by (simp add: ht_get_node_def)
  from get_node_loop_Some[OF this]
  have p: "p < length (table ht ! ht_get_index ht k)"
    "matches (compare ht) k (table ht ! ht_get_index ht k ! p)" by simp_all
  from p(1) have "table ht ! ht_get_index ht k ! p \<in> set (table ht ! ht_get_index ht k)" by simp
  with ht_inv_index_less[OF inv, of k] have "table ht ! ht_get_index ht k ! p \<in> set (concat (table ht))"
    unfolding in_concat_nth by blast
  with p show ?thesis by (simp add: ht_nodes_def)
qed

lemma ht_found:
  assumes "ht_inv ht" "n \<in># ht_nodes ht" "matches (compare ht) k n"
  shows "ht_search ht k = node_value n" "ht_get_key ht k = node_key n" "ht_contains ht k"
proof -
  from ht_get_node_found[OF assms] obtain p where
    p: "ht_get_node ht k = Some p" "table ht ! ht_get_index ht k ! p = n" by blast
  show "ht_search ht k = node_value n" by (simp add: ht_search_def p)
  show "ht_get_key ht k = node_key n" by (simp add: ht_get_key_def p)
  show "ht_contains ht k" by (simp add: ht_contains_def p)
qed

lemma ht_absent:
  assumes "ht_inv ht" "\<forall>n\<in>#ht_nodes ht. \<not> matches (compare ht) k n"
  shows "ht_search ht k = None" "ht_get_key ht k = None" "\<not> ht_contains ht k"
proof -
  note g = ht_get_node_absent[OF assms]
  show "ht_search ht k = None" by (simp add: ht_search_def g)
  show "ht_get_key ht k = None" by (simp add: ht_get_key_def g)
  show "\<not> ht_contains ht k" by (simp add: ht_contains_def g)
qed


text \<open>Lookups depend on the nodes of the table and on \<open>compare\<close> alone.\<close>

lemma ht_lookup_cong:
  assumes inv: "ht_inv ht" and inv': "ht_inv ht'" and nodes: "ht_nodes ht' = ht_nodes ht"
    and cmp: "compare ht' = compare ht"
  shows "ht_search ht' k = ht_search ht k \<and> ht_get_key ht' k = ht_get_key ht k \<and>
         ht_contains ht' k = ht_contains ht k"
proof (cases "\<exists>n\<in>#ht_nodes ht. matches (compare ht) k n")
  case True
  then obtain n where n: "n \<in># ht_nodes ht" "matches (compare ht) k n" by blast
  then have n': "n \<in># ht_nodes ht'" "matches (compare ht') k n" by (simp_all add: nodes cmp)
  from ht_found[OF inv n] ht_found[OF inv' n'] show ?thesis by simp
next
  case False
  then have a: "\<forall>n\<in>#ht_nodes ht. \<not> matches (compare ht) k n" by blast
  then have a': "\<forall>n\<in>#ht_nodes ht'. \<not> matches (compare ht') k n" by (simp add: nodes cmp)
  from ht_absent[OF inv a] ht_absent[OF inv' a'] show ?thesis by simp
qed


lemma ht_invD:
  assumes "ht_inv ht"
  shows "0 < ht_size ht" "length (table ht) = ht_size ht" "callbacks_ok (compare ht) (hash ht)"
    "\<And>i n. i < ht_size ht \<Longrightarrow> n \<in> set (table ht ! i) \<Longrightarrow> live n \<Longrightarrow> hash ht (node_key n) mod ht_size ht = i"
    "\<And>k. length (filter (matches (compare ht) k) (concat (table ht))) \<le> 1"
    "n_values ht = length (filter live (concat (table ht)))"
  using assms unfolding ht_inv_def by blast+

lemma ht_invI:
  assumes "0 < ht_size ht" "length (table ht) = ht_size ht" "callbacks_ok (compare ht) (hash ht)"
    "\<And>i n. i < ht_size ht \<Longrightarrow> n \<in> set (table ht ! i) \<Longrightarrow> live n \<Longrightarrow> hash ht (node_key n) mod ht_size ht = i"
    "\<And>k. length (filter (matches (compare ht) k) (concat (table ht))) \<le> 1"
    "n_values ht = length (filter live (concat (table ht)))"
  shows "ht_inv ht"
  using assms unfolding ht_inv_def by blast

lemma length_filter_nodes: "length (filter P (concat (table ht))) = size (filter_mset P (ht_nodes ht))"
  by (metis ht_nodes_def mset_filter size_mset)

subsection \<open>Creation\<close>

lemma ht_create_inv: "0 < sz \<Longrightarrow> callbacks_ok cmp h \<Longrightarrow> ht_inv (ht_create sz cmp h)"
  by (rule ht_invI) (simp_all add: ht_create_def initialise_table_def)

lemma ht_create_nodes: "ht_nodes (ht_create sz cmp h) = {#}"
  by (simp add: ht_nodes_def ht_create_def initialise_table_def)

subsection \<open>Growth\<close>

lemma ht_copy_insert_placed:
  assumes "0 < m" "placed m h tb"
  shows "placed m h (ht_copy_insert m h tb node)"
    and "mset (concat (ht_copy_insert m h tb node)) = add_mset node (mset (concat tb))"
proof -
  let ?i = "h (node_key node) mod m"
  from assms have i: "?i < length tb" by (simp add: placed_def)
  show "placed m h (ht_copy_insert m h tb node)"
    using assms i by (auto simp: placed_def ht_copy_insert_def Let_def nth_list_update)
  from mset_concat_update[OF i, of "node # tb ! ?i"]
  show "mset (concat (ht_copy_insert m h tb node)) = add_mset node (mset (concat tb))"
    by (simp add: ht_copy_insert_def Let_def)
qed

lemma fold_copy_insert_placed:
  assumes "0 < m" "placed m h tb"
  shows "placed m h (fold (\<lambda>node nt. ht_copy_insert m h nt node) ns tb) \<and>
         mset (concat (fold (\<lambda>node nt. ht_copy_insert m h nt node) ns tb)) = mset ns + mset (concat tb)"
  using assms(2)
proof (induction ns arbitrary: tb)
  case Nil
  then show ?case by simp
next
  case (Cons n ns)
  from ht_copy_insert_placed[OF assms(1) Cons.prems, of n]
  have 1: "placed m h (ht_copy_insert m h tb n)"
    and 2: "mset (concat (ht_copy_insert m h tb n)) = add_mset n (mset (concat tb))" by simp_all
  from Cons.IH[OF 1] 2 show ?case by simp
qed

lemma fold_concat_lists: "fold f (concat xss) s = fold (fold f) xss s"
  by (induction xss arbitrary: s) simp_all

lemma copy_ht_concat:
  assumes "length (table ht) = ht_size ht"
  shows "copy_ht nt ht m = fold (\<lambda>node nt'. ht_copy_insert m (hash ht) nt' node) (concat (table ht)) nt"
proof -
  have "copy_ht nt ht m =
        fold (fold (\<lambda>node nt'. ht_copy_insert m (hash ht) nt' node)) (map (\<lambda>i. table ht ! i) [0..<ht_size ht]) nt"
    by (simp add: copy_ht_def fold_map comp_def)
  also have "map (\<lambda>i. table ht ! i) [0..<ht_size ht] = table ht"
    using assms map_nth[of "table ht"] by simp
  finally show ?thesis by (simp add: fold_concat_lists)
qed

lemma resize_ht_fields:
  "ht_size (resize_ht ht) = ht_size ht * 2" "n_values (resize_ht ht) = n_values ht"
  "compare (resize_ht ht) = compare ht" "hash (resize_ht ht) = hash ht"
  by (simp_all add: resize_ht_def Let_def GROWTH_FACTOR_def)

lemma resize_ht_placed:
  assumes "ht_inv ht"
  shows "placed (ht_size ht * 2) (hash ht) (table (resize_ht ht))"
    and "ht_nodes (resize_ht ht) = ht_nodes ht"
proof -
  let ?m = "ht_size ht * 2"
  from ht_invD(1)[OF assms] have m: "0 < ?m" by simp
  have p0: "placed ?m (hash ht) (initialise_table ?m)"
    by (simp add: placed_def initialise_table_def)
  have tb: "table (resize_ht ht) =
        fold (\<lambda>node nt'. ht_copy_insert ?m (hash ht) nt' node) (concat (table ht)) (initialise_table ?m)"
    by (simp add: resize_ht_def Let_def GROWTH_FACTOR_def copy_ht_concat[OF ht_invD(2)[OF assms]])
  from fold_copy_insert_placed[OF m p0, of "concat (table ht)"] tb
  show "placed (ht_size ht * 2) (hash ht) (table (resize_ht ht))"
    and "ht_nodes (resize_ht ht) = ht_nodes ht"
    by (simp_all add: ht_nodes_def initialise_table_def)
qed

lemma resize_ht_inv:
  assumes "ht_inv ht"
  shows "ht_inv (resize_ht ht)"
proof (rule ht_invI)
  note pl = resize_ht_placed[OF assms]
  show "0 < ht_size (resize_ht ht)" using ht_invD(1)[OF assms] by (simp add: resize_ht_fields)
  show "length (table (resize_ht ht)) = ht_size (resize_ht ht)"
    using pl(1) by (simp add: placed_def resize_ht_fields)
  show "callbacks_ok (compare (resize_ht ht)) (hash (resize_ht ht))"
    using ht_invD(3)[OF assms] by (simp add: resize_ht_fields)
  show "\<And>i n. i < ht_size (resize_ht ht) \<Longrightarrow> n \<in> set (table (resize_ht ht) ! i) \<Longrightarrow> live n \<Longrightarrow>
          hash (resize_ht ht) (node_key n) mod ht_size (resize_ht ht) = i"
    using pl(1) by (simp add: placed_def resize_ht_fields)
  show "\<And>k. length (filter (matches (compare (resize_ht ht)) k) (concat (table (resize_ht ht)))) \<le> 1"
    using ht_invD(5)[OF assms] by (simp add: length_filter_nodes pl(2) resize_ht_fields)
  show "n_values (resize_ht ht) = length (filter live (concat (table (resize_ht ht))))"
    using ht_invD(6)[OF assms] by (simp add: length_filter_nodes pl(2) resize_ht_fields)
qed


subsection \<open>Changing one bucket\<close>

lemma nodes_bucket_update:
  "i < length (table ht) \<Longrightarrow>
     ht_nodes (ht\<lparr>table := (table ht)[i := c]\<rparr>) + mset (table ht ! i) = ht_nodes ht + mset c"
  by (simp add: ht_nodes_def mset_concat_update)

lemma mset_update_node: "p < length c \<Longrightarrow> mset (c[p := x]) + {#c ! p#} = mset c + {#x#}"
  by (simp add: mset_update)

lemma mset_unlink_node:
  assumes "Suc p < length c"
  shows "mset (take p c @ [c ! Suc p] @ drop (Suc (Suc p)) c) + {#c ! p#} = mset c"
proof -
  from assms have "[c ! Suc p] @ drop (Suc (Suc p)) c = drop (Suc p) c"
    by (simp add: Cons_nth_drop_Suc)
  moreover from assms have "c = take p c @ c ! p # drop (Suc p) c"
    by (simp add: id_take_nth_drop)
  ultimately have "mset c = mset (take p c @ [c ! Suc p] @ drop (Suc (Suc p)) c) + {#c ! p#}"
    by (metis add_mset_add_single append.assoc mset.simps(2) union_code union_mset_add_mset_right mset_append)
  then show ?thesis by simp
qed

lemma size_filter_swap:
  assumes "M' + {#a#} = M + {#b#}" "P a = P b"
  shows "size (filter_mset P M') = size (filter_mset P M)"
proof -
  from assms(1) have "size (filter_mset P (M' + {#a#})) = size (filter_mset P (M + {#b#}))" by simp
  with assms(2) show ?thesis by (simp split: if_splits)
qed

lemma size_filter_drop:
  assumes "M' + {#a#} = M"
  shows "size (filter_mset P M') + (if P a then 1 else 0) = size (filter_mset P M)"
proof -
  from assms have "size (filter_mset P (M' + {#a#})) = size (filter_mset P M)" by simp
  then show ?thesis by (simp split: if_splits)
qed

lemma size_filter_add:
  "size (filter_mset P (add_mset a M)) = size (filter_mset P M) + (if P a then 1 else 0)"
  by simp

text \<open>Overwriting the value of one node keeps the invariant.\<close>

lemma matches_set_value [simp]: "matches cmp k (n\<lparr>node_value := v\<rparr>) = matches cmp k n"
  by (simp add: matches_def)

lemma live_set_value [simp]: "live (n\<lparr>node_value := v\<rparr>) = live n"
  by (simp add: live_def)

lemma set_value_nodes:
  assumes "i < length (table ht)" "p < length (table ht ! i)"
  shows "ht_nodes (ht\<lparr>table := (table ht)[i := (table ht ! i)[p := (table ht ! i ! p)\<lparr>node_value := v\<rparr>]]\<rparr>)
           + {#table ht ! i ! p#} = ht_nodes ht + {#(table ht ! i ! p)\<lparr>node_value := v\<rparr>#}"
proof -
  let ?c = "table ht ! i" and ?x = "(table ht ! i ! p)\<lparr>node_value := v\<rparr>"
  let ?ht' = "ht\<lparr>table := (table ht)[i := ?c[p := ?x]]\<rparr>"
  from nodes_bucket_update[OF assms(1), of "?c[p := ?x]"]
  have "ht_nodes ?ht' + mset ?c + {#?c ! p#} = ht_nodes ht + (mset (?c[p := ?x]) + {#?c ! p#})"
    by (simp add: ac_simps)
  also have "\<dots> = ht_nodes ht + (mset ?c + {#?x#})"
    by (simp only: mset_update_node[OF assms(2)])
  finally show ?thesis by (simp add: ac_simps)
qed

lemma set_value_inv:
  assumes inv: "ht_inv ht" and i: "i < length (table ht)" and p: "p < length (table ht ! i)"
  shows "ht_inv (ht\<lparr>table := (table ht)[i := (table ht ! i)[p := (table ht ! i ! p)\<lparr>node_value := v\<rparr>]]\<rparr>)"
    (is "ht_inv ?ht'")
proof (rule ht_invI)
  let ?c = "table ht ! i" and ?x = "(table ht ! i ! p)\<lparr>node_value := v\<rparr>"
  note nd = set_value_nodes[OF i p, of v]
  show "0 < ht_size ?ht'" using ht_invD(1)[OF inv] by simp
  show "length (table ?ht') = ht_size ?ht'" using ht_invD(2)[OF inv] by simp
  show "callbacks_ok (compare ?ht') (hash ?ht')" using ht_invD(3)[OF inv] by simp
  show "hash ?ht' (node_key n) mod ht_size ?ht' = j"
    if "j < ht_size ?ht'" "n \<in> set (table ?ht' ! j)" "live n" for j n
  proof (cases "j = i")
    case False
    with that ht_invD(4)[OF inv, of j n] show ?thesis by simp
  next
    case True
    with that i have "n \<in> set (?c[p := ?x])" by simp
    then have "n = ?x \<or> n \<in> set ?c" using set_update_subset_insert by fastforce
    then show ?thesis
    proof
      assume n: "n = ?x"
      from p have "?c ! p \<in> set ?c" by simp
      moreover from n that(3) have "live (?c ! p)" by simp
      ultimately have "hash ht (node_key (?c ! p)) mod ht_size ht = i"
        using ht_invD(4)[OF inv, of i "?c ! p"] i ht_invD(2)[OF inv] by simp
      with n True show ?thesis by simp
    next
      assume "n \<in> set ?c"
      with that True ht_invD(4)[OF inv, of i n] show ?thesis by simp
    qed
  qed
  show "length (filter (matches (compare ?ht') k) (concat (table ?ht'))) \<le> 1" for k
    unfolding length_filter_nodes
    using ht_invD(5)[OF inv, of k] size_filter_swap[OF nd, of "matches (compare ht) k"]
    by (simp add: length_filter_nodes)
  show "n_values ?ht' = length (filter live (concat (table ?ht')))"
    unfolding length_filter_nodes
    using ht_invD(6)[OF inv] size_filter_swap[OF nd, of live]
    by (simp add: length_filter_nodes)
qed

text \<open>Linking a node for an absent key at the head of its bucket keeps the invariant.\<close>

lemma matches_new [simp]: "matches cmp k' \<lparr>node_key = Some k, node_value = v\<rparr> \<longleftrightarrow> cmp (Some k) (Some k') = 0"
  by (simp add: matches_def)

lemma link_nodes:
  assumes "i < length (table ht)"
  shows "ht_nodes (ht\<lparr>table := (table ht)[i := node # table ht ! i], n_values := m\<rparr>) = add_mset node (ht_nodes ht)"
  using mset_concat_update[OF assms, of "node # table ht ! i"]
  by (simp add: ht_nodes_def)

lemma absent_no_equiv:
  assumes inv: "ht_inv ht" and g: "ht_get_node ht k = None"
    and e: "compare ht (Some k) (Some k') = 0" and n: "n \<in># ht_nodes ht"
  shows "\<not> matches (compare ht) k' n"
proof
  assume m: "matches (compare ht) k' n"
  note cb = ht_invD(3)[OF inv]
  from matches_live[OF cb m] obtain k0 where
    k0: "node_key n = Some k0" "compare ht (Some k0) (Some k') = 0" by blast
  from callbacks_ok_trans[OF cb k0(2) callbacks_ok_sym[OF cb e]]
  have "matches (compare ht) k n" by (simp add: matches_def k0(1))
  from ht_get_node_found[OF inv n this] g show False by simp
qed

lemma link_inv:
  assumes inv: "ht_inv ht" and g: "ht_get_node ht k = None"
  shows "ht_inv (ht\<lparr>table := (table ht)[ht_get_index ht k :=
                    \<lparr>node_key = Some k, node_value = v\<rparr> # table ht ! ht_get_index ht k],
                  n_values := n_values ht + 1\<rparr>)"
    (is "ht_inv ?ht'")
proof (rule ht_invI)
  let ?i = "ht_get_index ht k" and ?x = "\<lparr>node_key = Some k, node_value = v\<rparr>"
  note i = ht_inv_index_less[OF inv, of k]
  note nd = link_nodes[OF i, where node = ?x and m = "n_values ht + 1"]
  show "0 < ht_size ?ht'" using ht_invD(1)[OF inv] by simp
  show "length (table ?ht') = ht_size ?ht'" using ht_invD(2)[OF inv] by simp
  show "callbacks_ok (compare ?ht') (hash ?ht')" using ht_invD(3)[OF inv] by simp
  show "hash ?ht' (node_key n) mod ht_size ?ht' = j"
    if "j < ht_size ?ht'" "n \<in> set (table ?ht' ! j)" "live n" for j n
  proof (cases "j = ?i")
    case False
    with that ht_invD(4)[OF inv, of j n] show ?thesis by simp
  next
    case True
    with that i have "n = ?x \<or> n \<in> set (table ht ! ?i)" by simp
    then show ?thesis
    proof
      assume "n = ?x"
      with True show ?thesis by (simp add: ht_get_index_def)
    next
      assume "n \<in> set (table ht ! ?i)"
      with that True ht_invD(4)[OF inv, of ?i n] show ?thesis by simp
    qed
  qed
  show "length (filter (matches (compare ?ht') k') (concat (table ?ht'))) \<le> 1" for k'
  proof (cases "compare ht (Some k) (Some k') = 0")
    case True
    from absent_no_equiv[OF inv g True]
    have "filter_mset (matches (compare ht) k') (ht_nodes ht) = {#}"
      by simp
    then have "size (filter_mset (matches (compare ht) k') (ht_nodes ht)) = 0" by simp
    with True show ?thesis unfolding length_filter_nodes nd by simp
  next
    case False
    with ht_invD(5)[OF inv, of k'] show ?thesis
      unfolding length_filter_nodes nd by (simp add: length_filter_nodes)
  qed
  show "n_values ?ht' = length (filter live (concat (table ?ht')))"
    unfolding length_filter_nodes nd
    using ht_invD(6)[OF inv] by (simp add: length_filter_nodes live_def)
qed


subsection \<open>Insertion\<close>

lemma swap_member_new:
  assumes "M' + {#a#} = M + {#b#}" "a \<in># M"
  shows "b \<in># M'"
proof (cases "a = b")
  case True
  with assms(1) have "M' = M" by simp
  with assms(2) True show ?thesis by simp
next
  case False
  have "b \<in># M + {#b#}" by simp
  with assms(1) have "b \<in># M' + {#a#}" by simp
  with False show ?thesis by auto
qed

lemma swap_member_old: "M' + {#a#} = M + {#b#} \<Longrightarrow> n \<in># M \<Longrightarrow> n \<noteq> a \<Longrightarrow> n \<in># M'"
  by (metis add_mset_add_single insert_iff set_mset_add_mset_insert union_iff)

lemma swap_member_cases: "M' + {#a#} = M + {#b#} \<Longrightarrow> n \<in># M' \<Longrightarrow> n = b \<or> n \<in># M"
  by (metis add_mset_add_single insert_iff set_mset_add_mset_insert union_iff)

lemma ht_insert_present:
  "ht_get_node ht k = Some p \<Longrightarrow>
     ht_insert ht k v =
       ht\<lparr>table := (table ht)[ht_get_index ht k :=
              (table ht ! ht_get_index ht k)[p := (table ht ! ht_get_index ht k ! p)\<lparr>node_value := v\<rparr>]]\<rparr>"
  by (simp add: ht_insert_def Let_def)

lemma ht_insert_absent:
  "ht_get_node ht k = None \<Longrightarrow>
     ht_insert ht k v = (if needs_resize (linked ht k v) then resize_ht (linked ht k v) else linked ht k v)"
  by (simp add: ht_insert_def linked_def Let_def)

lemma linked_inv: "ht_inv ht \<Longrightarrow> ht_get_node ht k = None \<Longrightarrow> ht_inv (linked ht k v)"
  unfolding linked_def by (rule link_inv)

lemma linked_nodes:
  "ht_inv ht \<Longrightarrow> ht_nodes (linked ht k v) = add_mset \<lparr>node_key = Some k, node_value = v\<rparr> (ht_nodes ht)"
  unfolding linked_def by (rule link_nodes) (rule ht_inv_index_less)

lemma linked_fields:
  "compare (linked ht k v) = compare ht" "hash (linked ht k v) = hash ht"
  "ht_size (linked ht k v) = ht_size ht" "n_values (linked ht k v) = n_values ht + 1"
  by (simp_all add: linked_def)

lemma ht_insert_inv:
  assumes "ht_inv ht"
  shows "ht_inv (ht_insert ht k v)"
proof (cases "ht_get_node ht k")
  case None
  from linked_inv[OF assms None, of v] resize_ht_inv[of "linked ht k v"] show ?thesis
    by (simp add: ht_insert_absent[OF None])
next
  case (Some p)
  from ht_get_node_SomeD[OF assms Some] have "p < length (table ht ! ht_get_index ht k)" by simp
  from set_value_inv[OF assms ht_inv_index_less[OF assms] this] show ?thesis
    by (simp add: ht_insert_present[OF Some])
qed

lemma ht_insert_callbacks:
  "compare (ht_insert ht k v) = compare ht" "hash (ht_insert ht k v) = hash ht"
  by (cases "ht_get_node ht k"; simp add: ht_insert_absent ht_insert_present resize_ht_fields linked_fields)+

lemma ht_insert_nodes_absent:
  assumes "ht_inv ht" "ht_get_node ht k = None"
  shows "ht_nodes (ht_insert ht k v) = add_mset \<lparr>node_key = Some k, node_value = v\<rparr> (ht_nodes ht)"
  using resize_ht_placed(2)[OF linked_inv[OF assms]] linked_nodes[OF assms(1)]
  by (simp add: ht_insert_absent[OF assms(2)])

lemma ht_insert_nodes_present:
  assumes "ht_inv ht" "ht_get_node ht k = Some p"
  shows "ht_nodes (ht_insert ht k v) + {#table ht ! ht_get_index ht k ! p#} =
         ht_nodes ht + {#(table ht ! ht_get_index ht k ! p)\<lparr>node_value := v\<rparr>#}"
  using set_value_nodes[OF ht_inv_index_less[OF assms(1)], of p k v] ht_get_node_SomeD[OF assms]
  by (simp add: ht_insert_present[OF assms(2)])

lemma matches_trans:
  assumes "callbacks_ok cmp h" "matches cmp k n" "cmp (Some k) (Some k') = 0"
  shows "matches cmp k' n"
proof -
  from matches_live[OF assms(1,2)] obtain k0 where
    k0: "node_key n = Some k0" "cmp (Some k0) (Some k) = 0" by blast
  from callbacks_ok_trans[OF assms(1) k0(2) assms(3)] k0(1) show ?thesis by (simp add: matches_def)
qed

lemma matches_both:
  assumes "callbacks_ok cmp h" "matches cmp k n" "matches cmp k' n"
  shows "cmp (Some k) (Some k') = 0"
proof -
  from matches_live[OF assms(1,2)] obtain k0 where
    k0: "node_key n = Some k0" "cmp (Some k0) (Some k) = 0" by blast
  from assms(3) k0(1) have "cmp (Some k0) (Some k') = 0" by (simp add: matches_def)
  from callbacks_ok_trans[OF assms(1) callbacks_ok_sym[OF assms(1) k0(2)] this] show ?thesis .
qed

theorem ht_insert_lookup:
  assumes inv: "ht_inv ht"
  shows "ht_search (ht_insert ht k v) k' =
           (if compare ht (Some k) (Some k') = 0 then v else ht_search ht k') \<and>
         ht_contains (ht_insert ht k v) k' =
           (compare ht (Some k) (Some k') = 0 \<or> ht_contains ht k') \<and>
         ht_get_key (ht_insert ht k v) k' =
           (if ht_contains ht k' then ht_get_key ht k'
            else if compare ht (Some k) (Some k') = 0 then Some k else None)"
proof -
  let ?ht' = "ht_insert ht k v"
  note inv' = ht_insert_inv[OF inv, of k v]
  note cb = ht_invD(3)[OF inv]
  have cmp': "compare ?ht' = compare ht" by (rule ht_insert_callbacks)
  show ?thesis
  proof (cases "ht_get_node ht k")
    case None
    let ?x = "\<lparr>node_key = Some k, node_value = v\<rparr>"
    note nd = ht_insert_nodes_absent[OF inv None, of v]
    show ?thesis
    proof (cases "compare ht (Some k) (Some k') = 0")
      case True
      have "?x \<in># ht_nodes ?ht'" "matches (compare ?ht') k' ?x" using True by (simp_all add: nd cmp')
      note f = ht_found[OF inv' this]
      from absent_no_equiv[OF inv None True]
      have "\<forall>n\<in>#ht_nodes ht. \<not> matches (compare ht) k' n" by blast
      note a = ht_absent[OF inv this]
      from f a True show ?thesis by simp
    next
      case False
      show ?thesis
      proof (cases "\<exists>n\<in>#ht_nodes ht. matches (compare ht) k' n")
        case True
        then obtain n where n: "n \<in># ht_nodes ht" "matches (compare ht) k' n" by blast
        then have "n \<in># ht_nodes ?ht'" "matches (compare ?ht') k' n" by (simp_all add: nd cmp')
        from ht_found[OF inv' this] ht_found[OF inv n] False show ?thesis by simp
      next
        case F2: False
        then have a: "\<forall>n\<in>#ht_nodes ht. \<not> matches (compare ht) k' n" by blast
        with False have "\<forall>n\<in>#ht_nodes ?ht'. \<not> matches (compare ?ht') k' n" by (simp add: nd cmp')
        from ht_absent[OF inv' this] ht_absent[OF inv a] False show ?thesis by simp
      qed
    qed
  next
    case (Some p)
    let ?n0 = "table ht ! ht_get_index ht k ! p"
    let ?x = "?n0\<lparr>node_value := v\<rparr>"
    note nd = ht_insert_nodes_present[OF inv Some, of v]
    from ht_get_node_SomeD[OF inv Some] have n0: "matches (compare ht) k ?n0" "?n0 \<in># ht_nodes ht"
      by simp_all
    show ?thesis
    proof (cases "compare ht (Some k) (Some k') = 0")
      case True
      from matches_trans[OF cb n0(1) True] have m0: "matches (compare ht) k' ?n0" .
      then have "matches (compare ?ht') k' ?x" by (simp add: cmp')
      from ht_found[OF inv' swap_member_new[OF nd n0(2)] this] ht_found[OF inv n0(2) m0] True
      show ?thesis by simp
    next
      case False
      with matches_both[OF cb n0(1)] have nm0: "\<not> matches (compare ht) k' ?n0" by blast
      show ?thesis
      proof (cases "\<exists>n\<in>#ht_nodes ht. matches (compare ht) k' n")
        case True
        then obtain n where n: "n \<in># ht_nodes ht" "matches (compare ht) k' n" by blast
        with nm0 have "n \<noteq> ?n0" by blast
        from swap_member_old[OF nd n(1) this] n(2)
        have "n \<in># ht_nodes ?ht'" "matches (compare ?ht') k' n" by (simp_all add: cmp')
        from ht_found[OF inv' this] ht_found[OF inv n] False show ?thesis by simp
      next
        case F2: False
        then have a: "\<forall>n\<in>#ht_nodes ht. \<not> matches (compare ht) k' n" by blast
        have "\<forall>n\<in>#ht_nodes ?ht'. \<not> matches (compare ?ht') k' n"
        proof
          fix n assume "n \<in># ht_nodes ?ht'"
          from swap_member_cases[OF nd this] a nm0 show "\<not> matches (compare ?ht') k' n"
            by (auto simp: cmp')
        qed
        from ht_absent[OF inv' this] ht_absent[OF inv a] False show ?thesis by simp
      qed
    qed
  qed
qed

lemma ht_contains_get_node: "ht_contains ht k \<longleftrightarrow> ht_get_node ht k \<noteq> None"
  by (simp add: ht_contains_def split: option.splits)

lemma ht_insert_counts:
  "ht_contains ht k \<Longrightarrow> n_values (ht_insert ht k v) = n_values ht \<and> ht_size (ht_insert ht k v) = ht_size ht"
  "\<not> ht_contains ht k \<Longrightarrow> n_values (ht_insert ht k v) = n_values ht + 1 \<and>
     ht_size (ht_insert ht k v) = (if ht_size ht \<le> n_values ht + 1 then ht_size ht * 2 else ht_size ht)"
proof -
  assume "ht_contains ht k"
  then obtain p where "ht_get_node ht k = Some p" by (auto simp: ht_contains_get_node)
  then show "n_values (ht_insert ht k v) = n_values ht \<and> ht_size (ht_insert ht k v) = ht_size ht"
    by (simp add: ht_insert_present)
next
  assume "\<not> ht_contains ht k"
  then have "ht_get_node ht k = None" by (simp add: ht_contains_get_node)
  then show "n_values (ht_insert ht k v) = n_values ht + 1 \<and>
     ht_size (ht_insert ht k v) = (if ht_size ht \<le> n_values ht + 1 then ht_size ht * 2 else ht_size ht)"
    by (simp add: ht_insert_absent needs_resize_def MAX_LOAD_FACTOR_def resize_ht_fields linked_fields)
qed


subsection \<open>Removal\<close>


lemma ht_remove_absent: "ht_get_node ht k = None \<Longrightarrow> ht_remove ht k fk fv = ([], ht)"
  by (simp add: ht_remove_def)

lemma ht_remove_present:
  "ht_get_node ht k = Some p \<Longrightarrow>
     snd (ht_remove ht k fk fv) =
       ht\<lparr>table := (table ht)[ht_get_index ht k := spliced (table ht ! ht_get_index ht k) p],
          n_values := (if n_values ht = 0 then 2 ^ 64 - 1 else n_values ht - 1)\<rparr>"
  by (simp add: ht_remove_def Let_def spliced_def null_node_def)

lemma null_node_simps [simp]: "\<not> live null_node" "node_key null_node = None" "node_value null_node = None"
  by (simp_all add: null_node_def live_def)

lemma null_node_no_match: "callbacks_ok cmp h \<Longrightarrow> \<not> matches cmp k null_node"
  using callbacks_ok_null[of cmp h k] by (simp add: matches_def)

lemma spliced_mset:
  assumes "p < length c"
  shows "mset (spliced c p) + {#c ! p#} = mset c + (if Suc p < length c then {#} else {#null_node#})"
proof (cases "Suc p < length c")
  case True
  with mset_unlink_node[OF True] show ?thesis by (simp add: spliced_def)
next
  case False
  with mset_update_node[OF assms, of null_node] show ?thesis by (simp add: spliced_def)
qed

lemma spliced_set: "p < length c \<Longrightarrow> set (spliced c p) \<subseteq> insert null_node (set c)"
proof -
  assume "p < length c"
  show ?thesis
  proof (cases "Suc p < length c")
    case True
    then have "c ! Suc p \<in> set c" by simp
    moreover have "set (take p c) \<subseteq> set c" by (rule set_take_subset)
    moreover have "set (drop (Suc (Suc p)) c) \<subseteq> set c" by (rule set_drop_subset)
    ultimately show ?thesis using True by (auto simp: spliced_def)
  next
    case False
    then show ?thesis using set_update_subset_insert[of c p null_node] by (simp add: spliced_def)
  qed
qed

lemma spliced_nodes:
  assumes "i < length (table ht)" "p < length (table ht ! i)"
  shows "ht_nodes (ht\<lparr>table := (table ht)[i := spliced (table ht ! i) p], n_values := m\<rparr>) + {#table ht ! i ! p#} =
         ht_nodes ht + (if Suc p < length (table ht ! i) then {#} else {#null_node#})"
proof -
  let ?c = "table ht ! i"
  let ?ht' = "ht\<lparr>table := (table ht)[i := spliced ?c p], n_values := m\<rparr>"
  from mset_concat_update[OF assms(1), of "spliced ?c p"]
  have "ht_nodes ?ht' + mset ?c = ht_nodes ht + mset (spliced ?c p)" by (simp add: ht_nodes_def)
  then have "ht_nodes ?ht' + mset ?c + {#?c ! p#} = ht_nodes ht + (mset (spliced ?c p) + {#?c ! p#})"
    by (simp add: ac_simps)
  also have "\<dots> = ht_nodes ht + (mset ?c + (if Suc p < length ?c then {#} else {#null_node#}))"
    by (simp only: spliced_mset[OF assms(2)])
  finally show ?thesis by (simp add: ac_simps)
qed

lemma member_size_pos: "x \<in># M \<Longrightarrow> 0 < size M"
  by (cases "M = {#}") (auto simp: nonempty_has_size)

lemma drop_member_old: "M' + {#a#} = M + B \<Longrightarrow> n \<in># M \<Longrightarrow> n \<noteq> a \<Longrightarrow> n \<in># M'"
  by (metis add_mset_add_single insert_iff set_mset_add_mset_insert union_iff)

lemma drop_member_cases: "M' + {#a#} = M + B \<Longrightarrow> n \<in># M' \<Longrightarrow> n \<in># B \<or> n \<in># M"
  by (metis add_mset_add_single insert_iff set_mset_add_mset_insert union_iff)

lemma drop_size_filter:
  assumes "M' + {#a#} = M + B"
  shows "size (filter_mset P M') + (if P a then 1 else 0) = size (filter_mset P M) + size (filter_mset P B)"
proof -
  from assms have "size (filter_mset P (M' + {#a#})) = size (filter_mset P (M + B))" by simp
  then show ?thesis by (simp split: if_splits)
qed

lemma spliced_inv:
  assumes inv: "ht_inv ht" and g: "ht_get_node ht k = Some p"
  shows "ht_inv (ht\<lparr>table := (table ht)[ht_get_index ht k := spliced (table ht ! ht_get_index ht k) p],
                  n_values := (if n_values ht = 0 then 2 ^ 64 - 1 else n_values ht - 1)\<rparr>)"
    (is "ht_inv ?ht'")
proof (rule ht_invI)
  let ?i = "ht_get_index ht k"
  let ?c = "table ht ! ?i"
  let ?B = "(if Suc p < length ?c then {#} else {#null_node#}) :: ('a, 'b) ht_node multiset"
  note i = ht_inv_index_less[OF inv, of k]
  note cb = ht_invD(3)[OF inv]
  from ht_get_node_SomeD[OF inv g] have p: "p < length ?c" and m: "matches (compare ht) k (?c ! p)"
    by simp_all
  from matches_live[OF cb m] have lv: "live (?c ! p)" by (auto simp: live_def)
  note nd = spliced_nodes[OF i p, of "if n_values ht = 0 then 2 ^ 64 - 1 else n_values ht - 1"]
  show "0 < ht_size ?ht'" using ht_invD(1)[OF inv] by simp
  show "length (table ?ht') = ht_size ?ht'" using ht_invD(2)[OF inv] by simp
  show "callbacks_ok (compare ?ht') (hash ?ht')" using cb by simp
  show "hash ?ht' (node_key n) mod ht_size ?ht' = j"
    if "j < ht_size ?ht'" "n \<in> set (table ?ht' ! j)" "live n" for j n
  proof (cases "j = ?i")
    case False
    with that ht_invD(4)[OF inv, of j n] show ?thesis by simp
  next
    case True
    with that i have "n \<in> set (spliced ?c p)" by simp
    with spliced_set[OF p] that(3) have "n \<in> set ?c" by auto
    with that True ht_invD(4)[OF inv, of ?i n] show ?thesis by simp
  qed
  show "length (filter (matches (compare ?ht') k') (concat (table ?ht'))) \<le> 1" for k'
  proof -
    have "size (filter_mset (matches (compare ht) k') ?B) = 0"
      by (simp add: null_node_no_match[OF cb])
    with drop_size_filter[OF nd, of "matches (compare ht) k'"]
    have "size (filter_mset (matches (compare ht) k') (ht_nodes ?ht')) \<le>
          size (filter_mset (matches (compare ht) k') (ht_nodes ht))" by linarith
    with ht_invD(5)[OF inv, of k'] have "size (filter_mset (matches (compare ht) k') (ht_nodes ?ht')) \<le> 1"
      by (simp add: length_filter_nodes)
    then show ?thesis unfolding length_filter_nodes by simp
  qed
  show "n_values ?ht' = length (filter live (concat (table ?ht')))"
  proof -
    have B0: "size (filter_mset live ?B) = 0" by simp
    from ht_get_node_SomeD[OF inv g] lv have "?c ! p \<in># filter_mset live (ht_nodes ht)" by simp
    then have "0 < size (filter_mset live (ht_nodes ht))" by (rule member_size_pos)
    with ht_invD(6)[OF inv] have pos: "0 < n_values ht" by (simp add: length_filter_nodes)
    from drop_size_filter[OF nd, of live] lv B0
    have "size (filter_mset live (ht_nodes ?ht')) + 1 = size (filter_mset live (ht_nodes ht))"
      by simp
    with ht_invD(6)[OF inv] have "size (filter_mset live (ht_nodes ?ht')) = n_values ht - 1"
      by (simp add: length_filter_nodes)
    moreover from pos have "n_values ?ht' = n_values ht - 1" by simp
    ultimately show ?thesis unfolding length_filter_nodes by simp
  qed
qed

lemma ht_remove_inv:
  assumes "ht_inv ht"
  shows "ht_inv (snd (ht_remove ht k fk fv))"
proof (cases "ht_get_node ht k")
  case None
  with assms show ?thesis by (simp add: ht_remove_absent)
next
  case (Some p)
  from spliced_inv[OF assms Some] show ?thesis by (simp add: ht_remove_present[OF Some])
qed

lemma ht_remove_callbacks:
  "compare (snd (ht_remove ht k fk fv)) = compare ht" "hash (snd (ht_remove ht k fk fv)) = hash ht"
  "ht_size (snd (ht_remove ht k fk fv)) = ht_size ht"
  by (cases "ht_get_node ht k"; simp add: ht_remove_absent ht_remove_present)+

lemma ht_remove_nodes:
  assumes "ht_inv ht" "ht_get_node ht k = Some p"
  shows "ht_nodes (snd (ht_remove ht k fk fv)) + {#table ht ! ht_get_index ht k ! p#} =
         ht_nodes ht + (if Suc p < length (table ht ! ht_get_index ht k) then {#} else {#null_node#})"
  using spliced_nodes[OF ht_inv_index_less[OF assms(1)], of p k] ht_get_node_SomeD[OF assms]
  by (simp add: ht_remove_present[OF assms(2)])

lemma ht_remove_n_values:
  assumes "ht_inv ht" "ht_get_node ht k = Some p"
  shows "0 < n_values ht \<and> n_values (snd (ht_remove ht k fk fv)) = n_values ht - 1"
proof -
  from ht_get_node_SomeD[OF assms] matches_live[OF ht_invD(3)[OF assms(1)]]
  have "live (table ht ! ht_get_index ht k ! p)" "table ht ! ht_get_index ht k ! p \<in># ht_nodes ht"
    by (auto simp: live_def)
  then have "table ht ! ht_get_index ht k ! p \<in># filter_mset live (ht_nodes ht)" by simp
  then have "0 < size (filter_mset live (ht_nodes ht))" by (rule member_size_pos)
  with ht_invD(6)[OF assms(1)] have "0 < n_values ht" by (simp add: length_filter_nodes)
  then show ?thesis by (simp add: ht_remove_present[OF assms(2)])
qed

theorem ht_remove_lookup:
  assumes inv: "ht_inv ht"
  shows "ht_search (snd (ht_remove ht k fk fv)) k' =
           (if compare ht (Some k) (Some k') = 0 then None else ht_search ht k') \<and>
         ht_contains (snd (ht_remove ht k fk fv)) k' =
           (compare ht (Some k) (Some k') \<noteq> 0 \<and> ht_contains ht k') \<and>
         ht_get_key (snd (ht_remove ht k fk fv)) k' =
           (if compare ht (Some k) (Some k') = 0 then None else ht_get_key ht k')"
proof -
  let ?ht' = "snd (ht_remove ht k fk fv)"
  note inv' = ht_remove_inv[OF inv, of k fk fv]
  note cb = ht_invD(3)[OF inv]
  have cmp': "compare ?ht' = compare ht" by (rule ht_remove_callbacks)
  show ?thesis
  proof (cases "ht_get_node ht k")
    case None
    show ?thesis
    proof (cases "compare ht (Some k) (Some k') = 0")
      case True
      from absent_no_equiv[OF inv None True]
      have "\<forall>n\<in>#ht_nodes ht. \<not> matches (compare ht) k' n" by blast
      from ht_absent[OF inv this] True show ?thesis by (simp add: ht_remove_absent[OF None])
    next
      case False
      then show ?thesis by (simp add: ht_remove_absent[OF None])
    qed
  next
    case (Some p)
    let ?n0 = "table ht ! ht_get_index ht k ! p"
    let ?B = "(if Suc p < length (table ht ! ht_get_index ht k) then {#} else {#null_node#}) :: ('a, 'b) ht_node multiset"
    note nd = ht_remove_nodes[OF inv Some, of fk fv]
    from ht_get_node_SomeD[OF inv Some] have n0: "matches (compare ht) k ?n0" "?n0 \<in># ht_nodes ht"
      by simp_all
    have B: "\<not> matches (compare ht) k' n" if "n \<in># ?B" for n
      using that by (simp add: null_node_no_match[OF cb] split: if_splits)
    show ?thesis
    proof (cases "compare ht (Some k) (Some k') = 0")
      case True
      from matches_trans[OF cb n0(1) True] have m0: "matches (compare ht) k' ?n0" .
      have "size (filter_mset (matches (compare ht) k') ?B) = 0"
        by (simp add: null_node_no_match[OF cb])
      with drop_size_filter[OF nd, of "matches (compare ht) k'"] m0
      have "size (filter_mset (matches (compare ht) k') (ht_nodes ?ht')) + 1 =
            size (filter_mset (matches (compare ht) k') (ht_nodes ht))" by simp
      moreover from ht_invD(5)[OF inv, of k']
      have "size (filter_mset (matches (compare ht) k') (ht_nodes ht)) \<le> 1"
        by (simp add: length_filter_nodes)
      ultimately have "size (filter_mset (matches (compare ht) k') (ht_nodes ?ht')) = 0" by linarith
      then have "filter_mset (matches (compare ht) k') (ht_nodes ?ht') = {#}" by simp
      then have "\<forall>n\<in>#ht_nodes ?ht'. \<not> matches (compare ?ht') k' n" by (simp add: cmp')
      from ht_absent[OF inv' this] True show ?thesis by simp
    next
      case False
      with matches_both[OF cb n0(1)] have nm0: "\<not> matches (compare ht) k' ?n0" by blast
      show ?thesis
      proof (cases "\<exists>n\<in>#ht_nodes ht. matches (compare ht) k' n")
        case True
        then obtain n where n: "n \<in># ht_nodes ht" "matches (compare ht) k' n" by blast
        with nm0 have "n \<noteq> ?n0" by blast
        from drop_member_old[OF nd n(1) this] n(2)
        have "n \<in># ht_nodes ?ht'" "matches (compare ?ht') k' n" by (simp_all add: cmp')
        from ht_found[OF inv' this] ht_found[OF inv n] False show ?thesis by simp
      next
        case F2: False
        then have a: "\<forall>n\<in>#ht_nodes ht. \<not> matches (compare ht) k' n" by blast
        have "\<forall>n\<in>#ht_nodes ?ht'. \<not> matches (compare ?ht') k' n"
        proof
          fix n assume "n \<in># ht_nodes ?ht'"
          from drop_member_cases[OF nd this] a B show "\<not> matches (compare ?ht') k' n"
            unfolding cmp' by blast
        qed
        from ht_absent[OF inv' this] ht_absent[OF inv a] False show ?thesis by simp
      qed
    qed
  qed
qed



lemma obj_callbacks_ok: "callbacks_ok obj_compare obj_hash"
  unfolding callbacks_ok_def obj_compare_def obj_hash_def by simp

subsection \<open>The laws of lookup, as rewrite rules\<close>

lemma ht_search_insert:
  "ht_inv ht \<Longrightarrow> ht_search (ht_insert ht k v) k' =
     (if compare ht (Some k) (Some k') = 0 then v else ht_search ht k')"
  using ht_insert_lookup[of ht k v k'] by simp

lemma ht_contains_insert:
  "ht_inv ht \<Longrightarrow> ht_contains (ht_insert ht k v) k' =
     (compare ht (Some k) (Some k') = 0 \<or> ht_contains ht k')"
  using ht_insert_lookup[of ht k v k'] by simp

lemma ht_get_key_insert:
  "ht_inv ht \<Longrightarrow> ht_get_key (ht_insert ht k v) k' =
     (if ht_contains ht k' then ht_get_key ht k'
      else if compare ht (Some k) (Some k') = 0 then Some k else None)"
  using ht_insert_lookup[of ht k v k'] by simp

lemma ht_search_remove:
  "ht_inv ht \<Longrightarrow> ht_search (snd (ht_remove ht k fk fv)) k' =
     (if compare ht (Some k) (Some k') = 0 then None else ht_search ht k')"
  using ht_remove_lookup[of ht k fk fv k'] by simp

lemma ht_contains_remove:
  "ht_inv ht \<Longrightarrow> ht_contains (snd (ht_remove ht k fk fv)) k' =
     (compare ht (Some k) (Some k') \<noteq> 0 \<and> ht_contains ht k')"
  using ht_remove_lookup[of ht k fk fv k'] by simp

lemma ht_get_key_remove:
  "ht_inv ht \<Longrightarrow> ht_get_key (snd (ht_remove ht k fk fv)) k' =
     (if compare ht (Some k) (Some k') = 0 then None else ht_get_key ht k')"
  using ht_remove_lookup[of ht k fk fv k'] by simp

lemma ht_create_lookup:
  assumes "0 < sz" "callbacks_ok cmp h"
  shows "ht_search (ht_create sz cmp h) k = None" "\<not> ht_contains (ht_create sz cmp h) k"
    "ht_get_key (ht_create sz cmp h) k = None"
  using ht_absent[OF ht_create_inv[OF assms], of k] by (simp_all add: ht_create_nodes)

lemma ht_create_fields:
  "compare (ht_create sz cmp h) = cmp" "hash (ht_create sz cmp h) = h"
  "ht_size (ht_create sz cmp h) = sz" "n_values (ht_create sz cmp h) = 0"
  by (simp_all add: ht_create_def)

lemmas ht_eval = ht_search_insert ht_contains_insert ht_get_key_insert ht_search_remove
  ht_contains_remove ht_get_key_remove ht_create_lookup ht_create_fields ht_insert_inv
  ht_remove_inv ht_create_inv ht_insert_callbacks ht_remove_callbacks



subsection \<open>Sequences of calls\<close>

lemma nat_callbacks_ok: "callbacks_ok nat_compare nat_hash"
  unfolding callbacks_ok_def nat_compare_def by simp

lemma ht_apply_inv: "ht_inv ht \<Longrightarrow> ht_inv (ht_apply x ht)"
  by (cases x) (simp_all add: ht_insert_inv ht_remove_inv)

lemma ht_apply_compare: "compare (ht_apply x ht) = compare ht"
  by (cases x) (simp_all add: ht_insert_callbacks ht_remove_callbacks)


lemma ht_run_compare: "compare (ht_run ops ht) = compare ht"
  unfolding ht_run_def by (induction ops arbitrary: ht) (simp_all add: ht_apply_compare)

lemma ht_apply_other:
  assumes "ht_inv ht" "compare ht (Some (op_key x)) (Some k) \<noteq> 0"
  shows "ht_search (ht_apply x ht) k = ht_search ht k"
  using assms by (cases x) (simp_all add: ht_search_insert ht_search_remove)

lemma ht_run_other:
  assumes "ht_inv ht" "\<forall>x\<in>set ops. compare ht (Some (op_key x)) (Some k) \<noteq> 0"
  shows "ht_search (ht_run ops ht) k = ht_search ht k"
  using assms unfolding ht_run_def
proof (induction ops arbitrary: ht)
  case Nil
  then show ?case by simp
next
  case (Cons x ops)
  from Cons.prems have 1: "ht_inv (ht_apply x ht)" by (simp add: ht_apply_inv)
  from Cons.prems have 2: "\<forall>y\<in>set ops. compare (ht_apply x ht) (Some (op_key y)) (Some k) \<noteq> 0"
    by (simp add: ht_apply_compare)
  from Cons.IH[OF 1 2] ht_apply_other[OF Cons.prems(1), of x k] Cons.prems(2)
  show ?case by simp
qed

lemma ht_apply_contains:
  assumes "ht_inv ht"
  shows "ht_contains (ht_apply x ht) k = inserted_not_removed (compare ht) k [x] (ht_contains ht k)"
  using assms by (cases x) (auto simp: ht_contains_insert ht_contains_remove)

lemma ht_run_contains:
  assumes "ht_inv ht"
  shows "ht_contains (ht_run ops ht) k = inserted_not_removed (compare ht) k ops (ht_contains ht k)"
  using assms unfolding ht_run_def
proof (induction ops arbitrary: ht)
  case Nil
  then show ?case by simp
next
  case (Cons x ops)
  from Cons.prems have 1: "ht_inv (ht_apply x ht)" by (simp add: ht_apply_inv)
  from Cons.IH[OF 1] ht_apply_contains[OF Cons.prems, of x k]
  show ?case by (cases x) (simp_all add: ht_insert_callbacks ht_remove_callbacks)
qed

lemma ht_create_absent: "0 < sz \<Longrightarrow> callbacks_ok cmp h \<Longrightarrow> \<not> ht_contains (ht_create sz cmp h) k"
  using ht_absent(3)[OF ht_create_inv, of sz cmp h k] by (simp add: ht_create_nodes)



subsection \<open>The calls of compare\<close>














subsection \<open>Inserting distinct keys\<close>

lemma distinct_keys_nth:
  "distinct_keys cmp ks \<Longrightarrow> i < j \<Longrightarrow> j < length ks \<Longrightarrow> cmp (Some (ks ! i)) (Some (ks ! j)) \<noteq> 0"
proof (induction ks arbitrary: i j)
  case Nil
  then show ?case by simp
next
  case (Cons k ks)
  from Cons.prems(2) obtain j' where j: "j = Suc j'" by (cases j) auto
  show ?case
  proof (cases i)
    case 0
    from Cons.prems(1,3) j have "cmp (Some k) (Some (ks ! j')) \<noteq> 0"
      by (simp add: list_all_length)
    with 0 j show ?thesis by simp
  next
    case (Suc i')
    with Cons.IH[of i' j'] Cons.prems j show ?thesis by simp
  qed
qed

lemma insert_all_snoc: "insert_all (kvs @ [(k, v)]) ht = ht_insert (insert_all kvs ht) k v"
  by (simp add: insert_all_def)

lemma insert_all_take_Suc:
  "j < length kvs \<Longrightarrow>
     insert_all (take (Suc j) kvs) ht = ht_insert (insert_all (take j kvs) ht) (fst (kvs ! j)) (snd (kvs ! j))"
  by (simp add: take_Suc_conv_app_nth insert_all_def case_prod_beta)

lemma insert_all_distinct_state:
  assumes cb: "callbacks_ok cmp h" and S: "0 < S" and d: "distinct_keys cmp (map fst kvs)"
  shows "j \<le> length kvs \<Longrightarrow>
         ht_inv (insert_all (take j kvs) (ht_create S cmp h)) \<and>
         compare (insert_all (take j kvs) (ht_create S cmp h)) = cmp \<and>
         n_values (insert_all (take j kvs) (ht_create S cmp h)) = j \<and>
         n_values (insert_all (take j kvs) (ht_create S cmp h)) < ht_size (insert_all (take j kvs) (ht_create S cmp h)) \<and>
         (\<forall>k. ht_contains (insert_all (take j kvs) (ht_create S cmp h)) k \<longleftrightarrow>
              (\<exists>i<j. cmp (Some (fst (kvs ! i))) (Some k) = 0))"
proof (induction j)
  case 0
  from S show ?case
    by (simp add: insert_all_def ht_create_fields ht_create_inv[OF S cb] ht_create_lookup(2)[OF S cb])
next
  case (Suc j)
  let ?T = "insert_all (take j kvs) (ht_create S cmp h)"
  let ?k = "fst (kvs ! j)" and ?v = "snd (kvs ! j)"
  from Suc.prems have j: "j < length kvs" by simp
  from Suc.IH j have inv: "ht_inv ?T" and c: "compare ?T = cmp" and n: "n_values ?T = j"
    and lt: "n_values ?T < ht_size ?T"
    and cont: "\<And>k. ht_contains ?T k \<longleftrightarrow> (\<exists>i<j. cmp (Some (fst (kvs ! i))) (Some k) = 0)"
    by simp_all
  have absent: "\<not> ht_contains ?T ?k"
  proof
    assume "ht_contains ?T ?k"
    with cont obtain i where i: "i < j" "cmp (Some (fst (kvs ! i))) (Some ?k) = 0" by blast
    from distinct_keys_nth[OF d i(1)] j i(1) have "cmp (Some (fst (kvs ! i))) (Some ?k) \<noteq> 0" by simp
    with i(2) show False by simp
  qed
  note step = insert_all_take_Suc[OF j, of "ht_create S cmp h"]
  from ht_insert_counts(2)[OF absent, of ?v] n lt
  have cnt: "n_values (ht_insert ?T ?k ?v) = Suc j" "n_values (ht_insert ?T ?k ?v) < ht_size (ht_insert ?T ?k ?v)"
    by (simp_all split: if_splits)
  have "ht_contains (ht_insert ?T ?k ?v) k \<longleftrightarrow> (\<exists>i<Suc j. cmp (Some (fst (kvs ! i))) (Some k) = 0)" for k
    using cont[of k] by (auto simp: ht_contains_insert[OF inv] c less_Suc_eq)
  with cnt ht_insert_inv[OF inv, of ?k ?v] c show ?case
    by (simp add: step ht_insert_callbacks)
qed



section \<open>The claims about the hash table\<close>

text \<open>
  Claim C6 (last write wins). In a well-formed table, after \<open>ht_insert\<close> of a key with a
  value, followed by any calls of \<open>ht_insert\<close> and \<open>ht_remove\<close> on other keys (with
  the resizes they trigger), \<open>ht_search\<close> on the key returns that value; and after any
  sequence of calls \<open>ht_contains\<close> holds of a key exactly when the key was inserted (or
  was there at the start) and not removed since.
\<close>

theorem last_write_wins:
  assumes "ht_inv ht"
  shows "(compare ht (Some k) (Some k') = 0 \<longrightarrow>
          (\<forall>x\<in>set ops. compare ht (Some (op_key x)) (Some k') \<noteq> 0) \<longrightarrow>
            ht_search (ht_run ops (ht_insert ht k v)) k' = v) \<and>
         ht_contains (ht_run ops ht) k' =
           inserted_not_removed (compare ht) k' ops (ht_contains ht k')"
proof -
  note inv' = ht_insert_inv[OF assms, of k v]
  have "ht_search (ht_run ops (ht_insert ht k v)) k' = v"
    if "compare ht (Some k) (Some k') = 0"
       "\<forall>x\<in>set ops. compare ht (Some (op_key x)) (Some k') \<noteq> 0"
  proof -
    from that(2) have "\<forall>x\<in>set ops. compare (ht_insert ht k v) (Some (op_key x)) (Some k') \<noteq> 0"
      by (simp add: ht_insert_callbacks)
    from ht_run_other[OF inv' this] ht_insert_lookup[OF assms, of k v k'] that(1)
    show ?thesis by simp
  qed
  with ht_run_contains[OF assms] show ?thesis by blast
qed

theorem last_write_wins_witness:
  "ht_inv (ht_insert (ht_create 2 nat_compare nat_hash) 2 (Some 10) :: (nat, nat) hashtable) \<and>
   ht_search (ht_run [Insert 3 (Some 30), Insert 5 (Some 50), Remove 3 record_key no_callback]
      (ht_insert (ht_insert (ht_create 2 nat_compare nat_hash) 2 (Some 10)) 2 (Some 11))) 2 = Some 11 \<and>
   ht_contains (ht_run [Insert 3 (Some 30), Remove 2 record_key record_value, Insert 5 None]
      (ht_insert (ht_create 2 nat_compare nat_hash) 2 (Some 10))) 3 \<and>
   \<not> ht_contains (ht_run [Insert 3 (Some 30), Remove 2 record_key record_value, Insert 5 None]
      (ht_insert (ht_create 2 nat_compare nat_hash) 2 (Some 10))) 2"
proof -
  let ?e = "ht_create 2 nat_compare nat_hash :: (nat, nat) hashtable"
  let ?t = "ht_insert ?e 2 (Some 10)"
  let ?ops1 = "[Insert 3 (Some 30), Insert 5 (Some 50), Remove 3 record_key no_callback]"
  let ?ops2 = "[Insert 3 (Some 30), Remove 2 record_key record_value, Insert 5 None]"
  have inv: "ht_inv ?t" by (simp add: ht_eval nat_callbacks_ok)
  have c: "compare ?t = nat_compare" by (simp add: ht_eval)
  have p: "ht_contains ?t 2" "\<not> ht_contains ?t 3"
    by (simp_all add: ht_eval nat_callbacks_ok nat_compare_def)
  from last_write_wins[OF inv, of 2 2 ?ops1 "Some 11"]
  have a: "ht_search (ht_run ?ops1 (ht_insert ?t 2 (Some 11))) 2 = Some 11"
    by (simp add: c nat_compare_def)
  from last_write_wins[OF inv, of 2 3 ?ops2] p
  have b: "ht_contains (ht_run ?ops2 ?t) 3" by (simp add: c nat_compare_def)
  from last_write_wins[OF inv, of 2 2 ?ops2] p
  have d: "\<not> ht_contains (ht_run ?ops2 ?t) 2" by (simp add: c nat_compare_def)
  from inv a b d show ?thesis by simp
qed

text \<open>
  Claim C7 (remove: frame and atomicity). In a well-formed table, \<open>ht_remove\<close> of a
  present key leaves the key absent, lowers \<open>n_values\<close> by exactly one, keeps the number of
  buckets, and keeps what \<open>ht_search\<close>, \<open>ht_contains\<close> and \<open>ht_get_key\<close> return for
  every other key; the bucket of the key is spliced at the found position \<open>p\<close>: with a
  successor, the successor's contents move into slot \<open>p\<close> and the successor's slot goes,
  without one the slot stays with its fields cleared. \<open>ht_remove\<close> of an absent key returns
  the table as it was and calls no callback.
\<close>

theorem ht_remove_frame:
  assumes "ht_inv ht"
  shows "(ht_contains ht k \<longrightarrow>
            \<not> ht_contains (snd (ht_remove ht k fk fv)) k \<and>
            n_values (snd (ht_remove ht k fk fv)) + 1 = n_values ht \<and>
            ht_size (snd (ht_remove ht k fk fv)) = ht_size ht \<and>
            length (table (snd (ht_remove ht k fk fv))) = length (table ht) \<and>
            (\<forall>k'. compare ht (Some k) (Some k') \<noteq> 0 \<longrightarrow>
               ht_search (snd (ht_remove ht k fk fv)) k' = ht_search ht k' \<and>
               ht_contains (snd (ht_remove ht k fk fv)) k' = ht_contains ht k' \<and>
               ht_get_key (snd (ht_remove ht k fk fv)) k' = ht_get_key ht k') \<and>
            (\<exists>p. ht_get_node ht k = Some p \<and>
               table (snd (ht_remove ht k fk fv)) =
                 (table ht)[ht_get_index ht k :=
                    (if Suc p < length (table ht ! ht_get_index ht k)
                     then take p (table ht ! ht_get_index ht k) @
                          [table ht ! ht_get_index ht k ! Suc p] @
                          drop (Suc (Suc p)) (table ht ! ht_get_index ht k)
                     else (table ht ! ht_get_index ht k)[p := \<lparr>node_key = None, node_value = None\<rparr>])])) \<and>
         (\<not> ht_contains ht k \<longrightarrow> ht_remove ht k fk fv = ([], ht))"
proof (cases "ht_get_node ht k")
  case None
  then show ?thesis by (simp add: ht_contains_get_node ht_remove_absent)
next
  case (Some p)
  note cb = ht_invD(3)[OF assms]
  have 1: "\<not> ht_contains (snd (ht_remove ht k fk fv)) k"
    using ht_remove_lookup[OF assms, of k fk fv k] callbacks_ok_refl[OF cb, of k] by simp
  have 2: "n_values (snd (ht_remove ht k fk fv)) + 1 = n_values ht"
    using ht_remove_n_values[OF assms Some, of fk fv] by simp
  have 3: "ht_size (snd (ht_remove ht k fk fv)) = ht_size ht" by (rule ht_remove_callbacks)
  have 4: "length (table (snd (ht_remove ht k fk fv))) = length (table ht)"
    by (simp add: ht_remove_present[OF Some])
  have 5: "\<forall>k'. compare ht (Some k) (Some k') \<noteq> 0 \<longrightarrow>
               ht_search (snd (ht_remove ht k fk fv)) k' = ht_search ht k' \<and>
               ht_contains (snd (ht_remove ht k fk fv)) k' = ht_contains ht k' \<and>
               ht_get_key (snd (ht_remove ht k fk fv)) k' = ht_get_key ht k'"
    using ht_remove_lookup[OF assms, of k fk fv] by simp
  have 6: "table (snd (ht_remove ht k fk fv)) =
                 (table ht)[ht_get_index ht k :=
                    (if Suc p < length (table ht ! ht_get_index ht k)
                     then take p (table ht ! ht_get_index ht k) @
                          [table ht ! ht_get_index ht k ! Suc p] @
                          drop (Suc (Suc p)) (table ht ! ht_get_index ht k)
                     else (table ht ! ht_get_index ht k)[p := \<lparr>node_key = None, node_value = None\<rparr>])]"
    by (simp add: ht_remove_present[OF Some] spliced_def null_node_def)
  from Some have c: "ht_contains ht k" by (simp add: ht_contains_get_node)
  from 1 2 3 4 5 6 c Some show ?thesis by blast
qed

theorem ht_remove_frame_witness:
  "ht_inv (insert_all [(2, Some 10), (6, Some 50)] (ht_create 4 nat_compare nat_hash) :: (nat, nat) hashtable) \<and>
   ht_contains (insert_all [(2, Some 10), (6, Some 50)] (ht_create 4 nat_compare nat_hash) :: (nat, nat) hashtable) 2 \<and>
   \<not> ht_contains (snd (ht_remove (insert_all [(2, Some 10), (6, Some (50::nat))] (ht_create 4 nat_compare nat_hash)) 2 record_key record_value)) 2 \<and>
   n_values (snd (ht_remove (insert_all [(2, Some 10), (6, Some (50::nat))] (ht_create 4 nat_compare nat_hash)) 2 record_key record_value)) + 1 = 2 \<and>
   ht_search (snd (ht_remove (insert_all [(2, Some 10), (6, Some (50::nat))] (ht_create 4 nat_compare nat_hash)) 2 record_key record_value)) 6 = Some 50 \<and>
   \<not> ht_contains (insert_all [(2, Some 10), (6, Some 50)] (ht_create 4 nat_compare nat_hash) :: (nat, nat) hashtable) 9 \<and>
   ht_remove (insert_all [(2, Some 10), (6, Some (50::nat))] (ht_create 4 nat_compare nat_hash)) 9 record_key record_value =
     ([], insert_all [(2, Some 10), (6, Some 50)] (ht_create 4 nat_compare nat_hash))"
proof -
  let ?e = "ht_create 4 nat_compare nat_hash :: (nat, nat) hashtable"
  let ?t = "insert_all [(2, Some 10), (6, Some 50)] ?e"
  have inv: "ht_inv ?t" by (simp add: insert_all_def ht_eval nat_callbacks_ok)
  have c: "compare ?t = nat_compare" by (simp add: insert_all_def ht_eval)
  have f1: "ht_contains ?t 2" "ht_search ?t 6 = Some 50" "\<not> ht_contains ?t 9"
    by (simp_all add: insert_all_def ht_eval nat_callbacks_ok nat_compare_def)
  have n: "n_values ?t = 2"
    using ht_insert_counts(2)[of ?e 2 "Some 10"] ht_insert_counts(2)[of "ht_insert ?e 2 (Some 10)" 6 "Some 50"]
    by (simp add: insert_all_def ht_eval nat_callbacks_ok nat_compare_def)
  let ?t' = "snd (ht_remove ?t 2 record_key record_value)"
  from ht_remove_frame[OF inv, of 2 record_key record_value] f1(1)
  have a: "\<not> ht_contains ?t' 2" "n_values ?t' + 1 = n_values ?t"
    and b: "\<forall>k'. compare ?t (Some 2) (Some k') \<noteq> 0 \<longrightarrow> ht_search ?t' k' = ht_search ?t k'"
    by blast+
  from b have "compare ?t (Some 2) (Some 6) \<noteq> 0 \<longrightarrow> ht_search ?t' 6 = ht_search ?t 6" by blast
  then have b': "ht_search ?t' 6 = Some 50" by (simp add: c nat_compare_def f1(2))
  from ht_remove_frame[OF inv, of 9 record_key record_value] f1(3)
  have d: "ht_remove ?t 9 record_key record_value = ([], ?t)" by blast
  from inv f1 a b' d n show ?thesis by simp
qed

text \<open>
  Claim C10 (what a null result of \<open>ht_search\<close> says). In a well-formed table
  \<open>ht_search\<close> returns \<open>NULL\<close> exactly when the key is absent or the node found for it
  holds a \<open>NULL\<close> value; after \<open>ht_insert\<close> of a key with a value, \<open>ht_search\<close>
  returns that value (\<open>NULL\<close> if it was \<open>NULL\<close>) while \<open>ht_contains\<close> holds, so only
  \<open>ht_contains\<close> tells the two cases apart. \<open>ht_get_key\<close> does not share the ambiguity:
  it returns \<open>NULL\<close> exactly when the key is absent, and for a present key the stored key
  object, which compares equal to the probe.
\<close>

theorem ht_search_null_ambiguity:
  assumes "ht_inv ht"
  shows "(ht_search ht k = None \<longleftrightarrow>
            \<not> ht_contains ht k \<or>
            (\<exists>n\<in>#ht_nodes ht. matches (compare ht) k n \<and> node_value n = None)) \<and>
         ht_search (ht_insert ht k v) k = v \<and> ht_contains (ht_insert ht k v) k \<and>
         (ht_get_key ht k = None \<longleftrightarrow> \<not> ht_contains ht k) \<and>
         (ht_contains ht k \<longrightarrow>
            (\<exists>k0. ht_get_key ht k = Some k0 \<and> compare ht (Some k0) (Some k) = 0))"
proof -
  note cb = ht_invD(3)[OF assms]
  have ins: "ht_search (ht_insert ht k v) k = v \<and> ht_contains (ht_insert ht k v) k"
    using callbacks_ok_refl[OF cb, of k] by (simp add: ht_search_insert[OF assms] ht_contains_insert[OF assms])
  show ?thesis
  proof (cases "\<exists>n\<in>#ht_nodes ht. matches (compare ht) k n")
    case True
    then obtain n where n: "n \<in># ht_nodes ht" "matches (compare ht) k n" by blast
    note f = ht_found[OF assms n]
    from matches_live[OF cb n(2)] obtain k0 where
      k0: "node_key n = Some k0" "compare ht (Some k0) (Some k) = 0" by blast
    have "(\<exists>m\<in>#ht_nodes ht. matches (compare ht) k m \<and> node_value m = None) \<longleftrightarrow> node_value n = None"
    proof
      assume "\<exists>m\<in>#ht_nodes ht. matches (compare ht) k m \<and> node_value m = None"
      then obtain m where m: "m \<in># ht_nodes ht" "matches (compare ht) k m" "node_value m = None" by blast
      from ht_found(1)[OF assms m(1,2)] f(1) m(3) show "node_value n = None" by simp
    next
      assume "node_value n = None"
      with n show "\<exists>m\<in>#ht_nodes ht. matches (compare ht) k m \<and> node_value m = None" by blast
    qed
    with f k0 ins show ?thesis by simp
  next
    case False
    then have a: "\<forall>n\<in>#ht_nodes ht. \<not> matches (compare ht) k n" by blast
    from ht_absent[OF assms a] ins show ?thesis by simp
  qed
qed

theorem ht_search_null_ambiguity_witness:
  "ht_inv (ht_insert (ht_create 4 obj_compare obj_hash) (7, 3) None :: (nat \<times> nat, nat) hashtable) \<and>
   ht_search (ht_insert (ht_create 4 obj_compare obj_hash) (7, 3) None :: (nat \<times> nat, nat) hashtable) (8, 3) = None \<and>
   ht_contains (ht_insert (ht_create 4 obj_compare obj_hash) (7, 3) None :: (nat \<times> nat, nat) hashtable) (8, 3) \<and>
   ht_get_key (ht_insert (ht_create 4 obj_compare obj_hash) (7, 3) None :: (nat \<times> nat, nat) hashtable) (8, 3) \<noteq> None \<and>
   ht_search (ht_insert (ht_insert (ht_create 4 obj_compare obj_hash) (7, 3) None) (8, 3) (Some 5)
     :: (nat \<times> nat, nat) hashtable) (8, 3) = Some 5"
proof -
  let ?e = "ht_create 4 obj_compare obj_hash :: (nat \<times> nat, nat) hashtable"
  let ?t = "ht_insert ?e (7, 3) None"
  have inv: "ht_inv ?t" by (simp add: ht_eval obj_callbacks_ok)
  have c: "ht_contains ?t (8, 3)" "ht_search ?t (8, 3) = None"
    by (simp_all add: ht_eval obj_callbacks_ok obj_compare_def)
  from ht_search_null_ambiguity[OF inv, of "(8, 3)" "Some 5"] c inv show ?thesis by simp
qed

text \<open>
  The claim as stated extends the ambiguity to \<open>ht_get_key\<close> for a probe that differs from
  the stored key only as an object. With keys compared by content, the table holding key
  object \<open>(7, 3)\<close> with a \<open>NULL\<close> value and the empty table both answer \<open>NULL\<close> to
  \<open>ht_search\<close> for the probe \<open>(8, 3)\<close>, and \<open>ht_get_key\<close> answers the stored object in
  the first and \<open>NULL\<close> in the second.
\<close>


theorem ht_get_key_tells_absent_counterexample:
  "ht_search (ht_insert (ht_create 4 obj_compare obj_hash) (7, 3) None :: (nat \<times> nat, nat) hashtable) (8, 3) = None \<and>
   ht_search (ht_create 4 obj_compare obj_hash :: (nat \<times> nat, nat) hashtable) (8, 3) = None \<and>
   ht_get_key (ht_insert (ht_create 4 obj_compare obj_hash) (7, 3) None :: (nat \<times> nat, nat) hashtable) (8, 3) = Some (7, 3) \<and>
   ht_get_key (ht_create 4 obj_compare obj_hash :: (nat \<times> nat, nat) hashtable) (8, 3) = None"
  by code_simp





text \<open>
  Claim C5 (growth trigger). Starting from \<open>ht_create\<close> with a positive capacity and
  inserting pairs whose keys are pairwise different for \<open>compare\<close>, the \<open>j\<close>-th insert
  (counting from 0) finds \<open>j\<close> entries and leaves \<open>j + 1\<close>; the number of buckets is
  multiplied by \<open>GROWTH_FACTOR\<close> by exactly those inserts whose resulting entry count
  equals the bucket count times \<open>MAX_LOAD_FACTOR\<close>, and is unchanged by the others; after
  every insert the entry count is at most (in fact below) the bucket count.
\<close>

theorem growth_trigger:
  assumes "callbacks_ok cmp h" "0 < S" "distinct_keys cmp (map fst kvs)" "j < length kvs"
  shows "n_values (insert_all (take j kvs) (ht_create S cmp h)) = j \<and>
         n_values (insert_all (take (Suc j) kvs) (ht_create S cmp h)) = Suc j \<and>
         ht_size (insert_all (take (Suc j) kvs) (ht_create S cmp h)) =
           (if n_values (insert_all (take (Suc j) kvs) (ht_create S cmp h)) =
               ht_size (insert_all (take j kvs) (ht_create S cmp h)) * MAX_LOAD_FACTOR
            then ht_size (insert_all (take j kvs) (ht_create S cmp h)) * GROWTH_FACTOR
            else ht_size (insert_all (take j kvs) (ht_create S cmp h))) \<and>
         n_values (insert_all (take (Suc j) kvs) (ht_create S cmp h)) \<le>
           ht_size (insert_all (take (Suc j) kvs) (ht_create S cmp h)) * MAX_LOAD_FACTOR \<and>
         n_values (insert_all (take (Suc j) kvs) (ht_create S cmp h)) <
           ht_size (insert_all (take (Suc j) kvs) (ht_create S cmp h))"
proof -
  let ?T = "insert_all (take j kvs) (ht_create S cmp h)"
  let ?T' = "insert_all (take (Suc j) kvs) (ht_create S cmp h)"
  from insert_all_distinct_state[OF assms(1-3), of j] assms(4)
  have b: "n_values ?T = j" "n_values ?T < ht_size ?T"
    and cont: "\<And>k. ht_contains ?T k \<longleftrightarrow> (\<exists>i<j. cmp (Some (fst (kvs ! i))) (Some k) = 0)"
    by simp_all
  from insert_all_distinct_state[OF assms(1-3), of "Suc j"] assms(4)
  have a: "n_values ?T' = Suc j" "n_values ?T' < ht_size ?T'" by simp_all
  have absent: "\<not> ht_contains ?T (fst (kvs ! j))"
  proof
    assume "ht_contains ?T (fst (kvs ! j))"
    with cont obtain i where i: "i < j" "cmp (Some (fst (kvs ! i))) (Some (fst (kvs ! j))) = 0" by blast
    from distinct_keys_nth[OF assms(3) i(1)] assms(4) i(1)
    have "cmp (Some (fst (kvs ! i))) (Some (fst (kvs ! j))) \<noteq> 0" by simp
    with i(2) show False by simp
  qed
  from ht_insert_counts(2)[OF absent, of "snd (kvs ! j)"] b
  have sz: "ht_size ?T' = (if Suc j = ht_size ?T then ht_size ?T * 2 else ht_size ?T)"
    by (auto simp: insert_all_take_Suc[OF assms(4)])
  from a b sz show ?thesis by (simp add: MAX_LOAD_FACTOR_def GROWTH_FACTOR_def)
qed

theorem growth_trigger_witness:
  "callbacks_ok nat_compare nat_hash \<and> distinct_keys nat_compare (map fst [(2, Some 20), (3, None), (4, Some (40::nat))]) \<and>
   ht_size (insert_all (take 1 [(2, Some 20), (3, None), (4, Some (40::nat))]) (ht_create 2 nat_compare nat_hash)) = 2 \<and>
   n_values (insert_all (take 2 [(2, Some 20), (3, None), (4, Some (40::nat))]) (ht_create 2 nat_compare nat_hash)) = 2 \<and>
   ht_size (insert_all (take 2 [(2, Some 20), (3, None), (4, Some (40::nat))]) (ht_create 2 nat_compare nat_hash)) = 4 \<and>
   ht_size (insert_all (take 3 [(2, Some 20), (3, None), (4, Some (40::nat))]) (ht_create 2 nat_compare nat_hash)) = 4"
proof -
  let ?kvs = "[(2, Some 20), (3, None), (4, Some (40::nat))] :: (nat \<times> nat option) list"
  have d: "distinct_keys nat_compare (map fst ?kvs)" by (simp add: nat_compare_def)
  have s1: "ht_size (insert_all (take 1 ?kvs) (ht_create 2 nat_compare nat_hash)) = 2" by code_simp
  have t: "take (Suc 1) ?kvs = take 2 ?kvs" "take (Suc 2) ?kvs = take 3 ?kvs" by simp_all
  from growth_trigger[OF nat_callbacks_ok _ d, of 2 1] s1
  have a: "n_values (insert_all (take 2 ?kvs) (ht_create 2 nat_compare nat_hash)) = 2"
    "ht_size (insert_all (take 2 ?kvs) (ht_create 2 nat_compare nat_hash)) = 4"
    unfolding t by (simp_all add: MAX_LOAD_FACTOR_def GROWTH_FACTOR_def)
  from growth_trigger[OF nat_callbacks_ok _ d, of 2 2] a
  have b: "ht_size (insert_all (take 3 ?kvs) (ht_create 2 nat_compare nat_hash)) = 4"
    unfolding t by (simp add: MAX_LOAD_FACTOR_def GROWTH_FACTOR_def)
  from nat_callbacks_ok d s1 a b show ?thesis by simp
qed


section \<open>Properties of the doubly linked list\<close>

lemma node_at_append_new [simp]: "node_at (cs @ [n]) (length cs) = n"
  by (simp add: node_at_def)

lemma node_at_append_old: "a < length cs \<Longrightarrow> node_at (cs @ [n]) a = node_at cs a"
  by (simp add: node_at_def nth_append)

lemma node_at_update: "node_at (cs[a := n]) b = (if b = a \<and> a < length cs then n else node_at cs b)"
  by (simp add: node_at_def)

lemma node_at_Some_less: "node_at cs a = Some n \<Longrightarrow> a < length cs"
  by (simp add: node_at_def split: if_splits)

lemma dll_chain_less: "dll_chain cs p c as l \<Longrightarrow> a \<in> set as \<Longrightarrow> a < length cs"
  by (induction as arbitrary: p c) (auto split: option.splits dest: node_at_Some_less)


lemma dll_chain_head: "dll_chain cs p c as l \<Longrightarrow> (c = None \<longleftrightarrow> as = [])"
  by (cases as) auto

lemma dll_chain_last: "dll_chain cs p c as l \<Longrightarrow> l = (if as = [] then p else Some (last as))"
  by (induction as arbitrary: p c) (auto split: option.splits)

lemma dll_inv_create: "dll_inv DLL_create []"
  by (simp add: dll_inv_def DLL_create_def)

lemma dll_items_create: "dll_items DLL_create [] = []"
  by (simp add: dll_items_def)

text \<open>Linking a new last node.\<close>

lemma dll_chain_snoc:
  assumes "dll_chain cs p c as (Some t)" "as \<noteq> []" "distinct as" "node_at cs t = Some n"
  shows "dll_chain ((cs @ [Some \<lparr>dll_data = x, dll_prev = Some t, dll_next = None\<rparr>])
                      [t := Some (n\<lparr>dll_next := Some (length cs)\<rparr>)])
           p c (as @ [length cs]) (Some (length cs))"
  using assms(1-3)
proof (induction as arbitrary: p c)
  case Nil
  then show ?case by simp
next
  case (Cons a as)
  let ?cs' = "(cs @ [Some \<lparr>dll_data = x, dll_prev = Some t, dll_next = None\<rparr>])
                [t := Some (n\<lparr>dll_next := Some (length cs)\<rparr>)]"
  from Cons.prems(1) obtain m where m: "c = Some a" "node_at cs a = Some m" "dll_prev m = p"
    "dll_chain cs (Some a) (dll_next m) as (Some t)"
    by (auto split: option.splits)
  from node_at_Some_less[OF m(2)] have a: "a < length cs" .
  from node_at_Some_less[OF assms(4)] have t: "t < length cs" .
  show ?case
  proof (cases "as = []")
    case True
    with m(4) have at: "t = a" and nx: "dll_next m = None" by simp_all
    with m(2) assms(4) have mn: "m = n" by simp
    from t have "node_at ?cs' (length cs) = Some \<lparr>dll_data = x, dll_prev = Some t, dll_next = None\<rparr>"
      by (simp add: node_at_update)
    moreover from t have "node_at ?cs' t = Some (n\<lparr>dll_next := Some (length cs)\<rparr>)"
      by (simp add: node_at_update)
    ultimately show ?thesis using True at m(1,3) mn by simp
  next
    case False
    from dll_chain_last[OF m(4)] False have "t = last as" by simp
    with False have "t \<in> set as" by simp
    with Cons.prems(3) have ta: "t \<noteq> a" by auto
    with a t m(2) have "node_at ?cs' a = Some m"
      by (simp add: node_at_update node_at_append_old)
    moreover from Cons.IH[OF m(4) False] Cons.prems(3)
    have "dll_chain ?cs' (Some a) (dll_next m) (as @ [length cs]) (Some (length cs))" by simp
    ultimately show ?thesis using m(1,3) by simp
  qed
qed

lemma dll_chain_node: "dll_chain cs p c as l \<Longrightarrow> a \<in> set as \<Longrightarrow> \<exists>n. node_at cs a = Some n"
  by (induction as arbitrary: p c) (auto split: option.splits)

lemma data_at_frame: "node_at cs' a = node_at cs a \<Longrightarrow> data_at cs' a = data_at cs a"
  by (simp add: data_at_def)

lemma DLL_insert_tail_inv:
  assumes "dll_inv dll as"
  shows "\<exists>dll'. DLL_insert_tail dll x = Some dll' \<and> dll_inv dll' (as @ [length (cells dll)]) \<and>
           dll_items dll' (as @ [length (cells dll)]) = dll_items dll as @ [x] \<and>
           tail dll' = Some (length (cells dll)) \<and>
           length (cells dll') = Suc (length (cells dll))"
proof (cases "as = []")
  case True
  with assms have "head dll = None" "tail dll = None" by (simp_all add: dll_inv_def)
  with True show ?thesis
    by (simp add: DLL_insert_tail_def dll_inv_def dll_items_def data_at_def Let_def)
next
  case False
  let ?a = "length (cells dll)"
  from assms have d: "distinct as" and ch: "dll_chain (cells dll) None (head dll) as (tail dll)"
    by (simp_all add: dll_inv_def)
  from dll_chain_last[OF ch] False have tl: "tail dll = Some (last as)" by simp
  from dll_chain_head[OF ch] False obtain h where hd: "head dll = Some h" by auto
  from False have lin: "last as \<in> set as" by simp
  from dll_chain_less[OF ch lin] have tlt: "last as < ?a" .
  from dll_chain_node[OF ch lin] obtain n where n: "node_at (cells dll) (last as) = Some n" by blast
  let ?cs' = "(cells dll @ [Some \<lparr>dll_data = x, dll_prev = Some (last as), dll_next = None\<rparr>])
                [last as := Some (n\<lparr>dll_next := Some ?a\<rparr>)]"
  let ?dll' = "\<lparr>head = Some h, tail = Some ?a, cells = ?cs'\<rparr>"
  from n tlt have eq: "DLL_insert_tail dll x = Some ?dll'"
    by (simp add: DLL_insert_tail_def Let_def tl hd node_at_append_old)
  from ch tl have ch': "dll_chain (cells dll) None (head dll) as (Some (last as))" by simp
  from dll_chain_snoc[OF ch' False d n, of x] hd
  have c1: "dll_chain ?cs' None (Some h) (as @ [?a]) (Some ?a)" by simp
  have notin: "?a \<notin> set as" using dll_chain_less[OF ch] by auto
  with d c1 have inv: "dll_inv ?dll' (as @ [?a])" by (simp add: dll_inv_def)
  have "data_at ?cs' a = data_at (cells dll) a" if "a \<in> set as" for a
  proof -
    from dll_chain_less[OF ch that] have "a < ?a" .
    with n tlt show ?thesis
      by (cases "a = last as") (simp_all add: data_at_def node_at_update node_at_append_old)
  qed
  moreover from tlt have "data_at ?cs' ?a = x" by (simp add: data_at_def node_at_update)
  ultimately have items: "dll_items ?dll' (as @ [?a]) = dll_items dll as @ [x]"
    by (simp add: dll_items_def)
  from eq inv items show ?thesis by simp
qed





section \<open>Properties of the resource allocation graph\<close>

lemma distinct_keys_append:
  "distinct_keys cmp (xs @ ys) \<longleftrightarrow>
     distinct_keys cmp xs \<and> distinct_keys cmp ys \<and>
     (\<forall>x\<in>set xs. \<forall>y\<in>set ys. cmp (Some x) (Some y) \<noteq> 0)"
  by (induction xs) (auto simp: list_all_iff)

lemma distinct_keys_single [simp]: "distinct_keys cmp [k]"
  by simp

lemma matches_is_live: "callbacks_ok cmp h \<Longrightarrow> matches cmp k n \<Longrightarrow> live n"
  using matches_live[of cmp h k n] by (auto simp: live_def)

lemma rag_inv_ht: "rag_inv rag ps rs \<Longrightarrow> ht_inv (rag_ht rag)"
  by (simp add: rag_inv_def)

lemma rag_present_node:
  assumes inv: "rag_inv rag ps rs" and g: "ht_get_node (rag_ht rag) key = Some p"
  shows "\<exists>a n. node_value (table (rag_ht rag) ! ht_get_index (rag_ht rag) key ! p) = Some a \<and>
               ht_search (rag_ht rag) key = Some a \<and> node_at (node_mem rag) a = Some n"
proof -
  note hinv = rag_inv_ht[OF inv]
  let ?n = "table (rag_ht rag) ! ht_get_index (rag_ht rag) key ! p"
  from ht_get_node_SomeD[OF hinv g] have m: "matches (compare (rag_ht rag)) key ?n"
    and el: "?n \<in># ht_nodes (rag_ht rag)" by simp_all
  from matches_is_live[OF ht_invD(3)[OF hinv] m] have "live ?n" .
  with inv el obtain a where a: "node_value ?n = Some a" "node_at (node_mem rag) a \<noteq> None"
    unfolding rag_inv_def by blast
  then obtain n where "node_at (node_mem rag) a = Some n" by auto
  with a(1) g show ?thesis by (simp add: ht_search_def)
qed

text \<open>Writing a node at an address that holds one keeps the graph well formed.\<close>

lemma rag_inv_write:
  assumes inv: "rag_inv rag ps rs" and a: "node_at (node_mem rag) a \<noteq> None"
  shows "rag_inv (rag\<lparr>node_mem := (node_mem rag)[a := Some n]\<rparr>) ps rs"
proof -
  have "node_at ((node_mem rag)[a := Some n]) b \<noteq> None" if "node_at (node_mem rag) b \<noteq> None" for b
    using that by (simp add: node_at_update)
  then have v: "\<forall>m\<in>#ht_nodes (rag_ht rag). live m \<longrightarrow>
          (\<exists>b. node_value m = Some b \<and> node_at ((node_mem rag)[a := Some n]) b \<noteq> None)"
    using inv unfolding rag_inv_def by blast
  from inv have rest: "ht_inv (rag_ht rag)"
     "\<exists>aps. dll_inv (proc_key_list rag) aps \<and> dll_items (proc_key_list rag) aps = map Some ps"
     "\<exists>ars. dll_inv (res_key_list rag) ars \<and> dll_items (res_key_list rag) ars = map Some rs"
     "list_all (\<lambda>k. key_type k = PROCESS_T) ps"
     "list_all (\<lambda>k. key_type k \<noteq> PROCESS_T) rs"
     "distinct_keys (compare (rag_ht rag)) (ps @ rs)"
     "\<forall>k. ht_contains (rag_ht rag) k \<longleftrightarrow>
          (\<exists>k0\<in>set (ps @ rs). compare (rag_ht rag) (Some k0) (Some k) = 0)"
    unfolding rag_inv_def by blast+
  show ?thesis unfolding rag_inv_def using rest v by simp
qed

lemma rag_node_same_data: "rag_data m = d \<Longrightarrow> m\<lparr>rag_data := d\<rparr> = m"
  by (cases m) simp

lemma rag_node_same_next: "rag_next m = x \<Longrightarrow> m\<lparr>rag_next := x\<rparr> = m"
  by (cases m) simp

lemma RAG_insert_found:
  assumes g: "ht_get_node (rag_ht rag) key = Some p"
   and an: "node_value (table (rag_ht rag) ! ht_get_index (rag_ht rag) key ! p) = Some a"
      "node_at (node_mem rag) a = Some n"
   and id: "(node_mem rag)[a := Some n] = node_mem rag"
  shows "RAG_insert rag key data next_node =
             Some (if (next_node \<noteq> None \<and> rag_next n = None) \<and> (data \<noteq> None \<and> rag_data n = None)
                   then UPDATED_NEXT_DATA
                   else if next_node \<noteq> None \<and> rag_next n = None then UPDATED_NEXT
                   else if data \<noteq> None \<and> rag_data n = None then UPDATED_DATA
                   else NO_UPDATE,
                   rag\<lparr>node_mem := (node_mem rag)[a := Some (n\<lparr>
                      rag_next := (if next_node \<noteq> None \<and> rag_next n = None then next_node else rag_next n),
                      rag_data := (if data \<noteq> None \<and> rag_data n = None then data else rag_data n)\<rparr>)]\<rparr>)"
proof (cases "next_node \<noteq> None \<and> rag_next n = None")
  case True
  note T = True
  show ?thesis
  proof (cases "data \<noteq> None \<and> rag_data n = None")
    case True
    with T show ?thesis by (auto simp: RAG_insert_def g an)
  next
    case False
    with T have "RAG_insert rag key data next_node =
       Some (UPDATED_NEXT, rag\<lparr>node_mem := (node_mem rag)[a := Some (n\<lparr>rag_next := next_node\<rparr>)]\<rparr>)"
      by (simp add: RAG_insert_def g an)
    moreover have "n\<lparr>rag_next := next_node, rag_data := rag_data n\<rparr> = n\<lparr>rag_next := next_node\<rparr>"
      by (cases n) simp
    ultimately show ?thesis using T False by auto
  qed
next
  case False
  note F = False
  show ?thesis
  proof (cases "data \<noteq> None \<and> rag_data n = None")
    case True
    with F have "RAG_insert rag key data next_node =
       Some (UPDATED_DATA, rag\<lparr>node_mem := (node_mem rag)[a := Some (n\<lparr>rag_data := data\<rparr>)]\<rparr>)"
      by (simp add: RAG_insert_def g an)
    moreover have "n\<lparr>rag_next := rag_next n, rag_data := data\<rparr> = n\<lparr>rag_data := data\<rparr>"
      by (cases n) simp
    ultimately show ?thesis using F True by auto
  next
    case False
    with F have "RAG_insert rag key data next_node = Some (NO_UPDATE, rag)"
      by (simp add: RAG_insert_def g an)
    moreover have "n\<lparr>rag_next := rag_next n, rag_data := rag_data n\<rparr> = n"
      by (cases n) simp
    ultimately show ?thesis using F False id by auto
  qed
qed

lemma RAG_insert_present:
  assumes inv: "rag_inv rag ps rs" and g: "ht_get_node (rag_ht rag) key = Some p"
  shows "\<exists>a n. ht_search (rag_ht rag) key = Some a \<and> node_at (node_mem rag) a = Some n \<and>
           RAG_insert rag key data next_node =
             Some (if (next_node \<noteq> None \<and> rag_next n = None) \<and> (data \<noteq> None \<and> rag_data n = None)
                   then UPDATED_NEXT_DATA
                   else if next_node \<noteq> None \<and> rag_next n = None then UPDATED_NEXT
                   else if data \<noteq> None \<and> rag_data n = None then UPDATED_DATA
                   else NO_UPDATE,
                   rag\<lparr>node_mem := (node_mem rag)[a := Some (n\<lparr>
                      rag_next := (if next_node \<noteq> None \<and> rag_next n = None then next_node else rag_next n),
                      rag_data := (if data \<noteq> None \<and> rag_data n = None then data else rag_data n)\<rparr>)]\<rparr>)"
proof -
  from rag_present_node[OF inv g] obtain a n where
    an: "node_value (table (rag_ht rag) ! ht_get_index (rag_ht rag) key ! p) = Some a"
      "ht_search (rag_ht rag) key = Some a" "node_at (node_mem rag) a = Some n" by blast
  from an(3) have id: "(node_mem rag)[a := Some n] = node_mem rag"
    by (simp add: node_at_def list_update_same_conv split: if_splits)
  from RAG_insert_found[OF g an(1,3) id, of "data" next_node] an(2,3) show ?thesis by blast
qed

lemma RAG_hard_insert_present:
  assumes inv: "rag_inv rag ps rs" and g: "ht_get_node (rag_ht rag) key = Some p"
  shows "\<exists>a n. ht_search (rag_ht rag) key = Some a \<and> node_at (node_mem rag) a = Some n \<and>
           RAG_hard_insert rag key data next_node =
             Some (if next_node \<noteq> None \<and> data \<noteq> None then UPDATED_NEXT_DATA
                   else if next_node \<noteq> None then UPDATED_NEXT
                   else if data \<noteq> None then UPDATED_DATA
                   else NO_UPDATE,
                   rag\<lparr>node_mem := (node_mem rag)[a := Some (n\<lparr>
                      rag_next := (if next_node \<noteq> None then next_node else rag_next n),
                      rag_data := (if data \<noteq> None then data else rag_data n)\<rparr>)]\<rparr>)"
proof -
  from rag_present_node[OF inv g] obtain a n where
    an: "node_value (table (rag_ht rag) ! ht_get_index (rag_ht rag) key ! p) = Some a"
      "ht_search (rag_ht rag) key = Some a" "node_at (node_mem rag) a = Some n" by blast
  from an(3) have id: "(node_mem rag)[a := Some n] = node_mem rag"
    by (simp add: node_at_def list_update_same_conv split: if_splits)
  have "RAG_hard_insert rag key data next_node =
             Some (if next_node \<noteq> None \<and> data \<noteq> None then UPDATED_NEXT_DATA
                   else if next_node \<noteq> None then UPDATED_NEXT
                   else if data \<noteq> None then UPDATED_DATA
                   else NO_UPDATE,
                   rag\<lparr>node_mem := (node_mem rag)[a := Some (n\<lparr>
                      rag_next := (if next_node \<noteq> None then next_node else rag_next n),
                      rag_data := (if data \<noteq> None then data else rag_data n)\<rparr>)]\<rparr>)"
    using an(1,3) id by (simp add: RAG_hard_insert_def g rag_node_same_data rag_node_same_next)
  with an show ?thesis by blast
qed


lemma node_at_append_keep: "node_at mem b \<noteq> None \<Longrightarrow> node_at (mem @ [x]) b \<noteq> None"
  by (simp add: node_at_def nth_append split: if_splits)

lemma rag_invD:
  assumes "rag_inv rag ps rs"
  shows "ht_inv (rag_ht rag)"
    "\<exists>aps. dll_inv (proc_key_list rag) aps \<and> dll_items (proc_key_list rag) aps = map Some ps"
    "\<exists>ars. dll_inv (res_key_list rag) ars \<and> dll_items (res_key_list rag) ars = map Some rs"
    "list_all (\<lambda>k. key_type k = PROCESS_T) ps"
    "list_all (\<lambda>k. key_type k \<noteq> PROCESS_T) rs"
    "distinct_keys (compare (rag_ht rag)) (ps @ rs)"
    "\<And>k. ht_contains (rag_ht rag) k \<longleftrightarrow>
          (\<exists>k0\<in>set (ps @ rs). compare (rag_ht rag) (Some k0) (Some k) = 0)"
    "\<And>n. n \<in># ht_nodes (rag_ht rag) \<Longrightarrow> live n \<Longrightarrow>
          (\<exists>a. node_value n = Some a \<and> node_at (node_mem rag) a \<noteq> None)"
  using assms unfolding rag_inv_def by blast+

lemma rag_invI:
  assumes "ht_inv (rag_ht rag)"
    "\<exists>aps. dll_inv (proc_key_list rag) aps \<and> dll_items (proc_key_list rag) aps = map Some ps"
    "\<exists>ars. dll_inv (res_key_list rag) ars \<and> dll_items (res_key_list rag) ars = map Some rs"
    "list_all (\<lambda>k. key_type k = PROCESS_T) ps"
    "list_all (\<lambda>k. key_type k \<noteq> PROCESS_T) rs"
    "distinct_keys (compare (rag_ht rag)) (ps @ rs)"
    "\<And>k. ht_contains (rag_ht rag) k \<longleftrightarrow>
          (\<exists>k0\<in>set (ps @ rs). compare (rag_ht rag) (Some k0) (Some k) = 0)"
    "\<And>n. n \<in># ht_nodes (rag_ht rag) \<Longrightarrow> live n \<Longrightarrow>
          (\<exists>a. node_value n = Some a \<and> node_at (node_mem rag) a \<noteq> None)"
  shows "rag_inv rag ps rs"
  using assms unfolding rag_inv_def by blast

text \<open>The state after the creating branch, for a process key and for any other key.\<close>

lemma rag_inv_added:
  assumes inv: "rag_inv rag ps rs" and g: "ht_get_node (rag_ht rag) key = None"
    and t': "t' = ht_insert (rag_ht rag) key (Some (length (node_mem rag)))"
    and mem': "mem' = node_mem rag @ [Some nd]"
    and pl: "if key_type key = PROCESS_T
             then (\<exists>aps. dll_inv pl aps \<and> dll_items pl aps = map Some (ps @ [key])) \<and> rl = res_key_list rag
             else (\<exists>ars. dll_inv rl ars \<and> dll_items rl ars = map Some (rs @ [key])) \<and> pl = proc_key_list rag"
  shows "rag_inv (rag\<lparr>rag_ht := t', proc_key_list := pl, res_key_list := rl, n_processes := np,
                     n_resources := nr, node_mem := mem'\<rparr>)
           (if key_type key = PROCESS_T then ps @ [key] else ps)
           (if key_type key = PROCESS_T then rs else rs @ [key])"
proof (rule rag_invI)
  let ?t = "rag_ht rag"
  let ?cmp = "compare ?t"
  let ?rag' = "rag\<lparr>rag_ht := t', proc_key_list := pl, res_key_list := rl, n_processes := np,
                     n_resources := nr, node_mem := mem'\<rparr>"
  let ?ps' = "if key_type key = PROCESS_T then ps @ [key] else ps"
  let ?rs' = "if key_type key = PROCESS_T then rs else rs @ [key]"
  note hinv = rag_invD(1)[OF inv]
  note cb = ht_invD(3)[OF hinv]
  have cmp': "compare t' = ?cmp" by (simp add: t' ht_insert_callbacks)
  from g have nc: "\<not> ht_contains ?t key" by (simp add: ht_contains_get_node)
  with rag_invD(7)[OF inv, of key] have fresh: "\<forall>k0\<in>set (ps @ rs). ?cmp (Some k0) (Some key) \<noteq> 0"
    by blast
  then have fresh': "\<forall>k0\<in>set (ps @ rs). ?cmp (Some key) (Some k0) \<noteq> 0"
    using callbacks_ok_sym[OF cb] by blast
  show "ht_inv (rag_ht ?rag')" using ht_insert_inv[OF hinv] by (simp add: t')
  show "\<exists>aps. dll_inv (proc_key_list ?rag') aps \<and> dll_items (proc_key_list ?rag') aps = map Some ?ps'"
    using pl rag_invD(2)[OF inv] by (simp split: if_splits)
  show "\<exists>ars. dll_inv (res_key_list ?rag') ars \<and> dll_items (res_key_list ?rag') ars = map Some ?rs'"
    using pl rag_invD(3)[OF inv] by (simp split: if_splits)
  show "list_all (\<lambda>k. key_type k = PROCESS_T) ?ps'" using rag_invD(4)[OF inv] by simp
  show "list_all (\<lambda>k. key_type k \<noteq> PROCESS_T) ?rs'" using rag_invD(5)[OF inv] by simp
  show "distinct_keys (compare (rag_ht ?rag')) (?ps' @ ?rs')"
    using rag_invD(6)[OF inv] fresh fresh'
    by (auto simp: cmp' distinct_keys_append)
  show "ht_contains (rag_ht ?rag') k \<longleftrightarrow>
          (\<exists>k0\<in>set (?ps' @ ?rs'). compare (rag_ht ?rag') (Some k0) (Some k) = 0)" for k
    using rag_invD(7)[OF inv, of k] by (auto simp: t' ht_contains_insert[OF hinv] ht_insert_callbacks)
  show "\<exists>a. node_value n = Some a \<and> node_at (node_mem ?rag') a \<noteq> None"
    if "n \<in># ht_nodes (rag_ht ?rag')" "live n" for n
  proof -
    from that(1) have "n = \<lparr>node_key = Some key, node_value = Some (length (node_mem rag))\<rparr> \<or>
        n \<in># ht_nodes ?t"
      by (simp add: t' ht_insert_nodes_absent[OF hinv g])
    then show ?thesis
    proof
      assume "n = \<lparr>node_key = Some key, node_value = Some (length (node_mem rag))\<rparr>"
      then show ?thesis by (simp add: mem')
    next
      assume "n \<in># ht_nodes ?t"
      from rag_invD(8)[OF inv this that(2)] obtain a where
        a: "node_value n = Some a" "node_at (node_mem rag) a \<noteq> None" by blast
      from node_at_append_keep[OF a(2), of "Some nd"] a(1) show ?thesis by (simp add: mem')
    qed
  qed
qed

lemma RAG_add_result:
  assumes inv: "rag_inv rag ps rs" and g: "ht_get_node (rag_ht rag) key = None"
  shows "\<exists>rag'. RAG_insert rag key data next_node = Some (ADDED_NODE, rag') \<and>
           RAG_hard_insert rag key data next_node = Some (ADDED_NODE, rag') \<and>
           rag_inv rag' (if key_type key = PROCESS_T then ps @ [key] else ps)
                        (if key_type key = PROCESS_T then rs else rs @ [key]) \<and>
           n_processes rag' = (if key_type key = PROCESS_T then n_processes rag + 1 else n_processes rag) \<and>
           n_resources rag' = (if key_type key = PROCESS_T then n_resources rag else n_resources rag + 1) \<and>
           node_mem rag' = node_mem rag @
             [Some \<lparr>rag_key = key, rag_data = data, rag_prev = None, rag_next = next_node\<rparr>] \<and>
           rag_ht rag' = ht_insert (rag_ht rag) key (Some (length (node_mem rag)))"
proof -
  let ?a = "length (node_mem rag)"
  let ?nd = "\<lparr>rag_key = key, rag_data = data, rag_prev = None, rag_next = next_node\<rparr>"
  let ?t' = "ht_insert (rag_ht rag) key (Some ?a)"
  let ?mem' = "node_mem rag @ [Some ?nd]"
  from g have nc: "\<not> ht_contains (rag_ht rag) key" by (simp add: ht_contains_get_node)
  show ?thesis
  proof (cases "key_type key = PROCESS_T")
    case True
    from rag_invD(2)[OF inv] obtain aps where
      aps: "dll_inv (proc_key_list rag) aps" "dll_items (proc_key_list rag) aps = map Some ps" by blast
    from DLL_insert_tail_inv[OF aps(1), of "Some key"] aps(2) obtain l where
      l: "DLL_insert_tail (proc_key_list rag) (Some key) = Some l"
         "dll_inv l (aps @ [length (cells (proc_key_list rag))])"
         "dll_items l (aps @ [length (cells (proc_key_list rag))]) = map Some (ps @ [key])"
      by auto
    let ?rag' = "rag\<lparr>rag_ht := ?t', proc_key_list := l, res_key_list := res_key_list rag,
                     n_processes := n_processes rag + 1, n_resources := n_resources rag, node_mem := ?mem'\<rparr>"
    have 1: "RAG_insert rag key data next_node = Some (ADDED_NODE, ?rag')"
      using True nc l(1)
      by (simp add: RAG_insert_def g RAG_create_node_def ht_unique_insert_def RAG_DLL_insert_def
          RAG_increment_def Let_def)
    have 2: "RAG_hard_insert rag key data next_node = Some (ADDED_NODE, ?rag')"
      using True nc l(1)
      by (simp add: RAG_hard_insert_def g RAG_create_node_def ht_unique_insert_def RAG_DLL_insert_def
          RAG_increment_def Let_def)
    from l(2,3) True
    have "if key_type key = PROCESS_T
          then (\<exists>aps. dll_inv l aps \<and> dll_items l aps = map Some (ps @ [key])) \<and> res_key_list rag = res_key_list rag
          else (\<exists>ars. dll_inv (res_key_list rag) ars \<and> dll_items (res_key_list rag) ars = map Some (rs @ [key])) \<and> l = proc_key_list rag"
      by auto
    from rag_inv_added[OF inv g refl refl this, where np = "n_processes rag + 1" and nr = "n_resources rag" and nd = ?nd]
    have 3: "rag_inv ?rag' (if key_type key = PROCESS_T then ps @ [key] else ps)
                        (if key_type key = PROCESS_T then rs else rs @ [key])" .
    from 1 2 3 True show ?thesis by simp
  next
    case False
    from rag_invD(3)[OF inv] obtain ars where
      ars: "dll_inv (res_key_list rag) ars" "dll_items (res_key_list rag) ars = map Some rs" by blast
    from DLL_insert_tail_inv[OF ars(1), of "Some key"] ars(2) obtain l where
      l: "DLL_insert_tail (res_key_list rag) (Some key) = Some l"
         "dll_inv l (ars @ [length (cells (res_key_list rag))])"
         "dll_items l (ars @ [length (cells (res_key_list rag))]) = map Some (rs @ [key])"
      by auto
    let ?rag' = "rag\<lparr>rag_ht := ?t', proc_key_list := proc_key_list rag, res_key_list := l,
                     n_processes := n_processes rag, n_resources := n_resources rag + 1, node_mem := ?mem'\<rparr>"
    have 1: "RAG_insert rag key data next_node = Some (ADDED_NODE, ?rag')"
      using False nc l(1)
      by (simp add: RAG_insert_def g RAG_create_node_def ht_unique_insert_def RAG_DLL_insert_def
          RAG_increment_def Let_def)
    have 2: "RAG_hard_insert rag key data next_node = Some (ADDED_NODE, ?rag')"
      using False nc l(1)
      by (simp add: RAG_hard_insert_def g RAG_create_node_def ht_unique_insert_def RAG_DLL_insert_def
          RAG_increment_def Let_def)
    from l(2,3) False
    have "if key_type key = PROCESS_T
          then (\<exists>aps. dll_inv (proc_key_list rag) aps \<and> dll_items (proc_key_list rag) aps = map Some (ps @ [key])) \<and> l = res_key_list rag
          else (\<exists>ars. dll_inv l ars \<and> dll_items l ars = map Some (rs @ [key])) \<and> proc_key_list rag = proc_key_list rag"
      by auto
    from rag_inv_added[OF inv g refl refl this, where np = "n_processes rag" and nr = "n_resources rag + 1" and nd = ?nd]
    have 3: "rag_inv ?rag' (if key_type key = PROCESS_T then ps @ [key] else ps)
                        (if key_type key = PROCESS_T then rs else rs @ [key])" .
    from 1 2 3 False show ?thesis by simp
  qed
qed


lemma ckey_callbacks_ok: "callbacks_ok ckey_compare ckey_hash"
  unfolding callbacks_ok_def ckey_compare_def by simp

lemma dll_create_ex: "\<exists>as. dll_inv DLL_create as \<and> dll_items DLL_create as = []"
  using dll_inv_create dll_items_create by blast

lemma RAG_create_inv: "callbacks_ok cmp h \<Longrightarrow> rag_inv (RAG_create cmp h) [] []"
  by (rule rag_invI)
     (simp_all add: RAG_create_def ht_create_inv ht_create_lookup ht_create_nodes
        INITIAL_TABLE_SIZE_def dll_create_ex)

lemma RAG_create_fields:
  "compare (rag_ht (RAG_create cmp h)) = cmp" "n_processes (RAG_create cmp h) = 0"
  "n_resources (RAG_create cmp h) = 0" "node_mem (RAG_create cmp h) = []"
  by (simp_all add: RAG_create_def ht_create_def)

lemma RAG_create_absent: "callbacks_ok cmp h \<Longrightarrow> \<not> ht_contains (rag_ht (RAG_create cmp h)) k"
  by (simp add: RAG_create_def ht_create_lookup INITIAL_TABLE_SIZE_def)

text \<open>One call of either insert: the graph stays well formed, a key is appended to the
  list of its type exactly when it was absent, and the counters move with the lists.\<close>

lemma RAG_insert_step:
  assumes inv: "rag_inv rag ps rs"
  shows "\<exists>st rag'. RAG_insert rag key data next_node = Some (st, rag') \<and>
           rag_inv rag' (if \<not> ht_contains (rag_ht rag) key \<and> key_type key = PROCESS_T then ps @ [key] else ps)
                        (if \<not> ht_contains (rag_ht rag) key \<and> key_type key \<noteq> PROCESS_T then rs @ [key] else rs) \<and>
           n_processes rag' = (if \<not> ht_contains (rag_ht rag) key \<and> key_type key = PROCESS_T
                               then n_processes rag + 1 else n_processes rag) \<and>
           n_resources rag' = (if \<not> ht_contains (rag_ht rag) key \<and> key_type key \<noteq> PROCESS_T
                               then n_resources rag + 1 else n_resources rag) \<and>
           compare (rag_ht rag') = compare (rag_ht rag)"
proof (cases "ht_get_node (rag_ht rag) key")
  case None
  then have nc: "\<not> ht_contains (rag_ht rag) key" by (simp add: ht_contains_get_node)
  from RAG_add_result[OF inv None, of "data" next_node] nc show ?thesis
    by (auto simp: ht_insert_callbacks)
next
  case (Some p)
  then have c: "ht_contains (rag_ht rag) key" by (simp add: ht_contains_get_node)
  from RAG_insert_present[OF inv Some, of "data" next_node] obtain a n st n' where
    r: "node_at (node_mem rag) a = Some n"
       "RAG_insert rag key data next_node = Some (st, rag\<lparr>node_mem := (node_mem rag)[a := Some n']\<rparr>)"
    by blast
  from r(1) have "node_at (node_mem rag) a \<noteq> None" by simp
  from rag_inv_write[OF inv this, of n'] r(2) c show ?thesis by simp
qed

lemma RAG_hard_insert_step:
  assumes inv: "rag_inv rag ps rs"
  shows "\<exists>st rag'. RAG_hard_insert rag key data next_node = Some (st, rag') \<and>
           rag_inv rag' (if \<not> ht_contains (rag_ht rag) key \<and> key_type key = PROCESS_T then ps @ [key] else ps)
                        (if \<not> ht_contains (rag_ht rag) key \<and> key_type key \<noteq> PROCESS_T then rs @ [key] else rs) \<and>
           n_processes rag' = (if \<not> ht_contains (rag_ht rag) key \<and> key_type key = PROCESS_T
                               then n_processes rag + 1 else n_processes rag) \<and>
           n_resources rag' = (if \<not> ht_contains (rag_ht rag) key \<and> key_type key \<noteq> PROCESS_T
                               then n_resources rag + 1 else n_resources rag) \<and>
           compare (rag_ht rag') = compare (rag_ht rag)"
proof (cases "ht_get_node (rag_ht rag) key")
  case None
  then have nc: "\<not> ht_contains (rag_ht rag) key" by (simp add: ht_contains_get_node)
  from RAG_add_result[OF inv None, of "data" next_node] nc show ?thesis
    by (auto simp: ht_insert_callbacks)
next
  case (Some p)
  then have c: "ht_contains (rag_ht rag) key" by (simp add: ht_contains_get_node)
  from RAG_hard_insert_present[OF inv Some, of "data" next_node] obtain a n st n' where
    r: "node_at (node_mem rag) a = Some n"
       "RAG_hard_insert rag key data next_node = Some (st, rag\<lparr>node_mem := (node_mem rag)[a := Some n']\<rparr>)"
    by blast
  from r(1) have "node_at (node_mem rag) a \<noteq> None" by simp
  from rag_inv_write[OF inv this, of n'] r(2) c show ?thesis by simp
qed

lemma rag_key_present:
  assumes "rag_inv rag ps rs" "ht_contains (rag_ht rag) key"
  shows "\<exists>p. ht_get_node (rag_ht rag) key = Some p"
  using assms(2) by (auto simp: ht_contains_get_node)


subsection \<open>The counters\<close>

lemma RAG_run_inserts:
  assumes "list_all is_insert ops" "rag_inv rag ps rs"
    "n_processes rag = of_nat (length ps)" "n_resources rag = of_nat (length rs)"
  shows "\<exists>rag' ps' rs'. RAG_run ops rag = Some rag' \<and> rag_inv rag' ps' rs' \<and>
           n_processes rag' = of_nat (length ps') \<and> n_resources rag' = of_nat (length rs') \<and>
           compare (rag_ht rag') = compare (rag_ht rag)"
  using assms
proof (induction ops arbitrary: rag ps rs)
  case Nil
  then show ?case by auto
next
  case (Cons x ops)
  have "\<exists>rag1 ps1 rs1. RAG_apply x rag = Some rag1 \<and> rag_inv rag1 ps1 rs1 \<and>
           n_processes rag1 = of_nat (length ps1) \<and> n_resources rag1 = of_nat (length rs1) \<and>
           compare (rag_ht rag1) = compare (rag_ht rag)"
  proof (cases x)
    case (Op_insert key data next_node)
    from RAG_insert_step[OF Cons.prems(2), of key "data" next_node] obtain st rag1 where
      s: "RAG_insert rag key data next_node = Some (st, rag1)"
         "rag_inv rag1 (if \<not> ht_contains (rag_ht rag) key \<and> key_type key = PROCESS_T then ps @ [key] else ps)
                        (if \<not> ht_contains (rag_ht rag) key \<and> key_type key \<noteq> PROCESS_T then rs @ [key] else rs)"
         "n_processes rag1 = (if \<not> ht_contains (rag_ht rag) key \<and> key_type key = PROCESS_T
                               then n_processes rag + 1 else n_processes rag)"
         "n_resources rag1 = (if \<not> ht_contains (rag_ht rag) key \<and> key_type key \<noteq> PROCESS_T
                               then n_resources rag + 1 else n_resources rag)"
         "compare (rag_ht rag1) = compare (rag_ht rag)"
      by blast
    from s(3,4) Cons.prems(3,4)
    have "n_processes rag1 = of_nat (length (if \<not> ht_contains (rag_ht rag) key \<and> key_type key = PROCESS_T then ps @ [key] else ps))"
      "n_resources rag1 = of_nat (length (if \<not> ht_contains (rag_ht rag) key \<and> key_type key \<noteq> PROCESS_T then rs @ [key] else rs))"
      by simp_all
    with s(1,2,5) Op_insert show ?thesis
      by (intro exI[of _ rag1]
            exI[of _ "if \<not> ht_contains (rag_ht rag) key \<and> key_type key = PROCESS_T then ps @ [key] else ps"]
            exI[of _ "if \<not> ht_contains (rag_ht rag) key \<and> key_type key \<noteq> PROCESS_T then rs @ [key] else rs"])
         simp
  next
    case (Op_hard_insert key data next_node)
    from RAG_hard_insert_step[OF Cons.prems(2), of key "data" next_node] obtain st rag1 where
      s: "RAG_hard_insert rag key data next_node = Some (st, rag1)"
         "rag_inv rag1 (if \<not> ht_contains (rag_ht rag) key \<and> key_type key = PROCESS_T then ps @ [key] else ps)
                        (if \<not> ht_contains (rag_ht rag) key \<and> key_type key \<noteq> PROCESS_T then rs @ [key] else rs)"
         "n_processes rag1 = (if \<not> ht_contains (rag_ht rag) key \<and> key_type key = PROCESS_T
                               then n_processes rag + 1 else n_processes rag)"
         "n_resources rag1 = (if \<not> ht_contains (rag_ht rag) key \<and> key_type key \<noteq> PROCESS_T
                               then n_resources rag + 1 else n_resources rag)"
         "compare (rag_ht rag1) = compare (rag_ht rag)"
      by blast
    from s(3,4) Cons.prems(3,4)
    have "n_processes rag1 = of_nat (length (if \<not> ht_contains (rag_ht rag) key \<and> key_type key = PROCESS_T then ps @ [key] else ps))"
      "n_resources rag1 = of_nat (length (if \<not> ht_contains (rag_ht rag) key \<and> key_type key \<noteq> PROCESS_T then rs @ [key] else rs))"
      by simp_all
    with s(1,2,5) Op_hard_insert show ?thesis
      by (intro exI[of _ rag1]
            exI[of _ "if \<not> ht_contains (rag_ht rag) key \<and> key_type key = PROCESS_T then ps @ [key] else ps"]
            exI[of _ "if \<not> ht_contains (rag_ht rag) key \<and> key_type key \<noteq> PROCESS_T then rs @ [key] else rs"])
         simp
  next
    case (Op_increment ty)
    with Cons.prems(1) show ?thesis by simp
  next
    case (Op_decrement ty)
    with Cons.prems(1) show ?thesis by simp
  qed
  then obtain rag1 ps1 rs1 where
    s: "RAG_apply x rag = Some rag1" "rag_inv rag1 ps1 rs1"
       "n_processes rag1 = of_nat (length ps1)" "n_resources rag1 = of_nat (length rs1)"
       "compare (rag_ht rag1) = compare (rag_ht rag)"
    by blast
  from Cons.prems(1) have "list_all is_insert ops" by simp
  from Cons.IH[OF this s(2,3,4)] s(1,5) show ?case by auto
qed



subsection \<open>Conversion to an undirected graph\<close>

lemma edges_validD:
  "edges_valid mem \<Longrightarrow> node_at mem a = Some n \<Longrightarrow> rag_next n = Some b \<Longrightarrow> \<exists>m. node_at mem b = Some m"
  by (auto simp: edges_valid_def list_all_length node_at_def split: if_splits option.splits)

lemma edges_validI:
  assumes "\<And>a n b. node_at mem a = Some n \<Longrightarrow> rag_next n = Some b \<Longrightarrow> node_at mem b \<noteq> None"
  shows "edges_valid mem"
  unfolding edges_valid_def list_all_length
proof (intro allI impI)
  fix a assume "a < length mem"
  then have "node_at mem a = mem ! a" by (simp add: node_at_def)
  with assms[of a] show "case mem ! a of None \<Rightarrow> True
      | Some n \<Rightarrow> (case rag_next n of None \<Rightarrow> True | Some b \<Rightarrow> node_at mem b \<noteq> None)"
    by (auto split: option.splits)
qed

text \<open>One step writes the \<open>_prev\<close> of one node and nothing else.\<close>

lemma set_prev_node_at:
  "node_at (set_prev mem a) b =
     map_option (\<lambda>m. if (\<exists>n. node_at mem a = Some n \<and> rag_next n = Some b)
                      then m\<lparr>rag_prev := Some a\<rparr> else m) (node_at mem b)"
  by (cases "node_at mem b")
     (auto simp: set_prev_def node_at_update option.map_ident split: option.splits dest: node_at_Some_less)

lemma set_prev_length [simp]: "length (set_prev mem a) = length mem"
  by (simp add: set_prev_def split: option.splits)

lemma set_prev_keeps:
  "(\<exists>y. node_at (set_prev mem a) b = Some y) \<longleftrightarrow> (\<exists>y. node_at mem b = Some y)"
  by (cases "node_at mem b") (simp_all add: set_prev_node_at)

lemma set_prev_next:
  "map_option rag_next (node_at (set_prev mem a) b) = map_option rag_next (node_at mem b)"
  by (cases "node_at mem b") (simp_all add: set_prev_node_at)

lemma edges_valid_set_prev: "edges_valid mem \<Longrightarrow> edges_valid (set_prev mem a)"
proof (rule edges_validI)
  fix x n b
  assume ev: "edges_valid mem" and n: "node_at (set_prev mem a) x = Some n" and b: "rag_next n = Some b"
  from set_prev_next[of mem a x] n b obtain n0 where "node_at mem x = Some n0" "rag_next n0 = Some b"
    by (cases "node_at mem x") auto
  from edges_validD[OF ev this] show "node_at (set_prev mem a) b \<noteq> None"
    by (auto simp: set_prev_keeps)
qed

lemma undirected_loop_fold:
  assumes "dll_chain (cells dll) p c as l" "map (data_at (cells dll)) as = map Some ks"
    "\<forall>k\<in>set ks. \<exists>a. ht_search t k = Some a \<and> node_at mem a \<noteq> None" "edges_valid mem"
  shows "undirected_loop dll t c mem = Some (fold (\<lambda>a m. set_prev m a) (node_order t ks) mem)"
  using assms
proof (induction as arbitrary: p c mem ks)
  case Nil
  then show ?case by (subst undirected_loop.simps) (simp add: node_order_def map_filter_simps)
next
  case (Cons a as)
  from Cons.prems(1) obtain dn where c: "c = Some a" and dn: "node_at (cells dll) a = Some dn"
    and ch: "dll_chain (cells dll) (Some a) (dll_next dn) as l"
    by (auto split: option.splits)
  from Cons.prems(2) obtain k ks' where ks: "ks = k # ks'" and da: "data_at (cells dll) a = Some k"
    and rest: "map (data_at (cells dll)) as = map Some ks'"
    by (cases ks) auto
  from da dn have dk: "dll_data dn = Some k" by (simp add: data_at_def)
  from Cons.prems(3) ks obtain node n where s: "ht_search t k = Some node" and n: "node_at mem node = Some n"
    by auto
  have step: "(case rag_next n of
                 Some b \<Rightarrow> do { m \<leftarrow> node_at mem b; Some (mem[b := Some (m\<lparr>rag_prev := Some node\<rparr>)]) }
               | None \<Rightarrow> Some mem) = Some (set_prev mem node)"
  proof (cases "rag_next n")
    case None
    with n show ?thesis by (simp add: set_prev_def)
  next
    case (Some b)
    from edges_validD[OF Cons.prems(4) n Some] obtain m where "node_at mem b = Some m" by blast
    with n Some show ?thesis by (simp add: set_prev_def)
  qed
  have 3: "\<forall>k\<in>set ks'. \<exists>a. ht_search t k = Some a \<and> node_at (set_prev mem node) a \<noteq> None"
    using Cons.prems(3) ks by (simp add: set_prev_keeps)
  from Cons.IH[OF ch rest 3 edges_valid_set_prev[OF Cons.prems(4)]]
  have "undirected_loop dll t (dll_next dn) (set_prev mem node) =
          Some (fold (\<lambda>a m. set_prev m a) (node_order t ks') (set_prev mem node))" .
  then show ?case
    by (subst undirected_loop.simps) (simp add: c dn dk s n step ks node_order_def map_filter_simps)
qed

text \<open>The effect of a pass on a node \<open>b\<close>: its \<open>_prev\<close> is the last visited node whose
  \<open>next\<close> is \<open>b\<close>, and is not written when there is none.\<close>

lemma pointing_to_snoc:
  "pointing_to mem b (as @ [a]) =
     pointing_to mem b as @
       (if (\<exists>n. node_at mem a = Some n \<and> rag_next n = Some b) then [a] else [])"
  by (auto simp: pointing_to_def split: option.splits)

lemma fold_set_prev_node_at:
  "node_at (fold (\<lambda>a m. set_prev m a) as mem) b =
     map_option (\<lambda>m. m\<lparr>rag_prev := (if pointing_to mem b as = [] then rag_prev m
                                      else Some (last (pointing_to mem b as)))\<rparr>) (node_at mem b)"
proof (induction as arbitrary: b rule: rev_induct)
  case Nil
  show ?case by (cases "node_at mem b") (simp_all add: pointing_to_def)
next
  case (snoc a as)
  let ?M = "fold (\<lambda>a m. set_prev m a) as mem"
  have nx: "(\<exists>n. node_at ?M a = Some n \<and> rag_next n = Some b) \<longleftrightarrow>
            (\<exists>n. node_at mem a = Some n \<and> rag_next n = Some b)"
    by (cases "node_at mem a") (simp_all add: snoc.IH[where b = a] del: fold_simps)
  have "node_at (fold (\<lambda>a m. set_prev m a) (as @ [a]) mem) b = node_at (set_prev ?M a) b"
    by simp
  also have "\<dots> = map_option (\<lambda>m. if (\<exists>n. node_at ?M a = Some n \<and> rag_next n = Some b)
                                   then m\<lparr>rag_prev := Some a\<rparr> else m) (node_at ?M b)"
    by (rule set_prev_node_at)
  also have "\<dots> = map_option (\<lambda>m. if (\<exists>n. node_at mem a = Some n \<and> rag_next n = Some b)
                                   then m\<lparr>rag_prev := Some a\<rparr> else m) (node_at ?M b)"
    unfolding nx ..
  also have "\<dots> = map_option (\<lambda>m. m\<lparr>rag_prev := (if pointing_to mem b (as @ [a]) = [] then rag_prev m
                                      else Some (last (pointing_to mem b (as @ [a]))))\<rparr>) (node_at mem b)"
    by (cases "node_at mem b") (auto simp: snoc.IH[where b = b] pointing_to_snoc)
  finally show ?case .
qed

lemma fold_set_prev_length [simp]: "length (fold (\<lambda>a m. set_prev m a) as mem) = length mem"
  by (induction as arbitrary: mem) simp_all

lemma fold_set_prev_keeps:
  "(\<exists>y. node_at (fold (\<lambda>a m. set_prev m a) as mem) b = Some y) \<longleftrightarrow> (\<exists>y. node_at mem b = Some y)"
  by (cases "node_at mem b") (simp_all add: fold_set_prev_node_at)

lemma edges_valid_fold: "edges_valid mem \<Longrightarrow> edges_valid (fold (\<lambda>a m. set_prev m a) as mem)"
  by (induction as arbitrary: mem) (simp_all add: edges_valid_set_prev)

lemma node_order_append: "node_order t (ks @ ks') = node_order t ks @ node_order t ks'"
  by (simp add: node_order_def map_filter_def)

lemma rag_list_nodes:
  assumes "rag_inv rag ps rs" "k \<in> set (ps @ rs)"
  shows "\<exists>a. ht_search (rag_ht rag) k = Some a \<and> node_at (node_mem rag) a \<noteq> None"
proof -
  note cb = ht_invD(3)[OF rag_invD(1)[OF assms(1)]]
  from rag_invD(7)[OF assms(1), of k] assms(2) callbacks_ok_refl[OF cb, of k]
  have "ht_contains (rag_ht rag) k" by blast
  from rag_key_present[OF assms(1) this] obtain p where "ht_get_node (rag_ht rag) k = Some p" ..
  from rag_present_node[OF assms(1) this] show ?thesis by auto
qed

lemma node_order_all:
  assumes "\<forall>k\<in>set ks. \<exists>a. ht_search t k = Some a"
  shows "map (ht_search t) ks = map Some (node_order t ks)"
  using assms by (induction ks) (auto simp: node_order_def map_filter_simps)


section \<open>The list with an index\<close>

subsection \<open>Taking a node out of the list\<close>






subsection \<open>The index and the list together\<close>



lemma index_nodes_Cons [simp]:
  "index_nodes (k # ks) (a # as) = \<lparr>node_key = Some k, node_value = Some a\<rparr> # index_nodes ks as"
  by (simp add: index_nodes_def)

lemma index_nodes_Nil [simp]: "index_nodes [] as = []" "index_nodes ks [] = []"
  by (simp_all add: index_nodes_def)


lemma index_nodes_live: "filter live (index_nodes ks as) = index_nodes ks as"
  by (auto simp: index_nodes_def live_def filter_id_conv dest: in_set_zipE)















text \<open>\<open>ht_remove\<close> with both callbacks \<open>NULL\<close>, as \<open>DLL_HT_remove\<close> calls it, makes no
  call.\<close>

lemma ht_remove_no_callbacks: "fst (ht_remove ht k None None) = []"
  by (simp add: ht_remove_def Let_def split: option.splits)

section \<open>The claims about the graph\<close>

text \<open>
  Claim C1 (soft insert does not clobber). In a well-formed graph, \<open>RAG_insert\<close> on a key
  that is in the node table changes nothing but the node of that key: its \<open>next\<close> is
  overwritten exactly when the caller gave a \<open>next\<close> and the field was \<open>NULL\<close>, and
  likewise its \<open>data\<close>; the status is \<open>UPDATED_NEXT_DATA\<close> when both were written,
  \<open>UPDATED_NEXT\<close> or \<open>UPDATED_DATA\<close> when one was, and \<open>NO_UPDATE\<close> otherwise. For a key
  not yet in the table, \<open>RAG_insert\<close> with data \<open>d1\<close> and no \<open>next\<close> adds the node, and a
  second \<open>RAG_insert\<close> with data \<open>d2\<close> and next \<open>n1\<close> returns \<open>UPDATED_NEXT\<close> and leaves
  the node with data \<open>d1\<close> and next \<open>n1\<close>.
\<close>

theorem soft_insert_non_clobber:
  assumes "rag_inv rag ps rs"
  shows "(ht_contains (rag_ht rag) key \<longrightarrow>
           (\<exists>a n. ht_search (rag_ht rag) key = Some a \<and> node_at (node_mem rag) a = Some n \<and>
              RAG_insert rag key data next_node =
                Some (if (next_node \<noteq> None \<and> rag_next n = None) \<and> (data \<noteq> None \<and> rag_data n = None)
                      then UPDATED_NEXT_DATA
                      else if next_node \<noteq> None \<and> rag_next n = None then UPDATED_NEXT
                      else if data \<noteq> None \<and> rag_data n = None then UPDATED_DATA
                      else NO_UPDATE,
                      rag\<lparr>node_mem := (node_mem rag)[a := Some (n\<lparr>
                         rag_next := (if next_node \<noteq> None \<and> rag_next n = None then next_node else rag_next n),
                         rag_data := (if data \<noteq> None \<and> rag_data n = None then data else rag_data n)\<rparr>)]\<rparr>))) \<and>
         (\<not> ht_contains (rag_ht rag) key \<longrightarrow>
           (\<exists>rag1 rag2 a n.
              RAG_insert rag key (Some d1) None = Some (ADDED_NODE, rag1) \<and>
              RAG_insert rag1 key (Some d2) (Some n1) = Some (UPDATED_NEXT, rag2) \<and>
              ht_search (rag_ht rag2) key = Some a \<and> node_at (node_mem rag2) a = Some n \<and>
              rag_data n = Some d1 \<and> rag_next n = Some n1))"
proof (cases "ht_get_node (rag_ht rag) key")
  case (Some p)
  then have "ht_contains (rag_ht rag) key" by (simp add: ht_contains_get_node)
  with RAG_insert_present[OF assms Some, of "data" next_node] show ?thesis by simp
next
  case None
  then have nc: "\<not> ht_contains (rag_ht rag) key" by (simp add: ht_contains_get_node)
  let ?a = "length (node_mem rag)"
  let ?nd = "\<lparr>rag_key = key, rag_data = Some d1, rag_prev = None, rag_next = None\<rparr>"
  note hinv = rag_invD(1)[OF assms]
  from RAG_add_result[OF assms None, of "Some d1" None] obtain rag1 ps1 rs1 where
    r1: "RAG_insert rag key (Some d1) None = Some (ADDED_NODE, rag1)" "rag_inv rag1 ps1 rs1"
      "node_mem rag1 = node_mem rag @ [Some ?nd]"
      "rag_ht rag1 = ht_insert (rag_ht rag) key (Some ?a)"
    by blast
  have refl: "compare (rag_ht rag) (Some key) (Some key) = 0"
    by (rule callbacks_ok_refl[OF ht_invD(3)[OF hinv]])
  have s1: "ht_search (rag_ht rag1) key = Some ?a" "ht_contains (rag_ht rag1) key"
    by (simp_all add: r1(4) ht_search_insert[OF hinv] ht_contains_insert[OF hinv] refl)
  from s1(2) obtain p where p: "ht_get_node (rag_ht rag1) key = Some p"
    by (auto simp: ht_contains_get_node)
  from RAG_insert_present[OF r1(2) p, of "Some d2" "Some n1"] s1(1) r1(3)
  have r2: "RAG_insert rag1 key (Some d2) (Some n1) =
      Some (UPDATED_NEXT, rag1\<lparr>node_mem := (node_mem rag1)[?a := Some (?nd\<lparr>rag_next := Some n1\<rparr>)]\<rparr>)"
    by auto
  let ?rag2 = "rag1\<lparr>node_mem := (node_mem rag1)[?a := Some (?nd\<lparr>rag_next := Some n1\<rparr>)]\<rparr>"
  have "ht_search (rag_ht ?rag2) key = Some ?a" using s1(1) by simp
  moreover have "node_at (node_mem ?rag2) ?a = Some (?nd\<lparr>rag_next := Some n1\<rparr>)"
    by (simp add: r1(3) node_at_def)
  ultimately show ?thesis using r1(1) r2 nc by auto
qed


theorem soft_insert_non_clobber_witness:
  "rag_inv (RAG_create ckey_compare ckey_hash :: (nat, nat) RAG) [] [] \<and>
   \<not> ht_contains (rag_ht (RAG_create ckey_compare ckey_hash :: (nat, nat) RAG))
       \<lparr>key_type = PROCESS_T, key_id = 7\<rparr> \<and>
   (\<exists>rag1 rag2 a n.
      RAG_insert (RAG_create ckey_compare ckey_hash :: (nat, nat) RAG)
        \<lparr>key_type = PROCESS_T, key_id = 7\<rparr> (Some 11) None = Some (ADDED_NODE, rag1) \<and>
      RAG_insert rag1 \<lparr>key_type = PROCESS_T, key_id = 7\<rparr> (Some 22) (Some 0) = Some (UPDATED_NEXT, rag2) \<and>
      ht_search (rag_ht rag2) \<lparr>key_type = PROCESS_T, key_id = 7\<rparr> = Some a \<and>
      node_at (node_mem rag2) a = Some n \<and> rag_data n = Some 11 \<and> rag_next n = Some 0 \<and>
      ht_contains (rag_ht rag2) \<lparr>key_type = PROCESS_T, key_id = 7\<rparr> \<and>
      map_option fst (RAG_insert rag2 \<lparr>key_type = PROCESS_T, key_id = 7\<rparr> (Some 33) (Some 5)) = Some NO_UPDATE)"
proof -
  let ?R = "RAG_create ckey_compare ckey_hash :: (nat, nat) RAG"
  let ?K = "\<lparr>key_type = PROCESS_T, key_id = 7\<rparr> :: nat ckey"
  have inv0: "rag_inv ?R [] []" by (rule RAG_create_inv[OF ckey_callbacks_ok])
  have nc: "\<not> ht_contains (rag_ht ?R) ?K" by (rule RAG_create_absent[OF ckey_callbacks_ok])
  from soft_insert_non_clobber[OF inv0, of ?K _ _ 11 22 0] nc obtain rag1 rag2 a n where
    ex: "RAG_insert ?R ?K (Some 11) None = Some (ADDED_NODE, rag1)"
        "RAG_insert rag1 ?K (Some 22) (Some 0) = Some (UPDATED_NEXT, rag2)"
        "ht_search (rag_ht rag2) ?K = Some a" "node_at (node_mem rag2) a = Some n"
        "rag_data n = Some 11" "rag_next n = Some 0"
    by blast
  from RAG_insert_step[OF inv0, of ?K "Some 11" None] ex(1) nc
  have inv1: "rag_inv rag1 [?K] []" and c1: "compare (rag_ht rag1) = ckey_compare"
    by (auto simp: RAG_create_fields)
  from rag_invD(7)[OF inv1, of ?K] c1 have p1: "ht_contains (rag_ht rag1) ?K"
    by (simp add: ckey_compare_def)
  from RAG_insert_step[OF inv1, of ?K "Some 22" "Some 0"] ex(2) p1
  have inv2: "rag_inv rag2 [?K] []" and c2: "compare (rag_ht rag2) = ckey_compare"
    by (auto simp: c1)
  from rag_invD(7)[OF inv2, of ?K] c2 have p2: "ht_contains (rag_ht rag2) ?K"
    by (simp add: ckey_compare_def)
  from soft_insert_non_clobber[OF inv2, of ?K "Some 33" "Some 5"] p2 ex(3,4,5,6)
  have "map_option fst (RAG_insert rag2 ?K (Some 33) (Some 5)) = Some NO_UPDATE" by auto
  with inv0 nc ex p2 show ?thesis by blast
qed


text \<open>
  Claim C2 (hard insert overwrites). In a well-formed graph, \<open>RAG_hard_insert\<close> on a key
  that is in the node table overwrites each of \<open>next\<close> and \<open>data\<close> that the caller gave,
  whatever the field held, and changes nothing else; the status is \<open>NO_UPDATE\<close> only when
  neither was given. On a key that is not in the table it does what \<open>RAG_insert\<close> does and
  returns \<open>ADDED_NODE\<close>. Two calls with data \<open>d1\<close> and then \<open>d2\<close> on the same key leave
  data \<open>d2\<close>, and the second returns \<open>UPDATED_DATA\<close>.
\<close>

theorem hard_insert_overwrite:
  assumes "rag_inv rag ps rs"
  shows "(ht_contains (rag_ht rag) key \<longrightarrow>
           (\<exists>a n. ht_search (rag_ht rag) key = Some a \<and> node_at (node_mem rag) a = Some n \<and>
              RAG_hard_insert rag key data next_node =
                Some (if next_node \<noteq> None \<and> data \<noteq> None then UPDATED_NEXT_DATA
                      else if next_node \<noteq> None then UPDATED_NEXT
                      else if data \<noteq> None then UPDATED_DATA
                      else NO_UPDATE,
                      rag\<lparr>node_mem := (node_mem rag)[a := Some (n\<lparr>
                         rag_next := (if next_node \<noteq> None then next_node else rag_next n),
                         rag_data := (if data \<noteq> None then data else rag_data n)\<rparr>)]\<rparr>))) \<and>
         (\<not> ht_contains (rag_ht rag) key \<longrightarrow>
           (\<exists>rag'. RAG_hard_insert rag key data next_node = Some (ADDED_NODE, rag') \<and>
                   RAG_insert rag key data next_node = Some (ADDED_NODE, rag'))) \<and>
         (\<exists>st rag1 rag2 a n.
            RAG_hard_insert rag key (Some d1) None = Some (st, rag1) \<and>
            RAG_hard_insert rag1 key (Some d2) None = Some (UPDATED_DATA, rag2) \<and>
            ht_search (rag_ht rag2) key = Some a \<and> node_at (node_mem rag2) a = Some n \<and>
            rag_data n = Some d2)"
proof -
  note hinv = rag_invD(1)[OF assms]
  note cb = ht_invD(3)[OF hinv]
  have A: "ht_contains (rag_ht rag) key \<longrightarrow>
           (\<exists>a n. ht_search (rag_ht rag) key = Some a \<and> node_at (node_mem rag) a = Some n \<and>
              RAG_hard_insert rag key data next_node =
                Some (if next_node \<noteq> None \<and> data \<noteq> None then UPDATED_NEXT_DATA
                      else if next_node \<noteq> None then UPDATED_NEXT
                      else if data \<noteq> None then UPDATED_DATA
                      else NO_UPDATE,
                      rag\<lparr>node_mem := (node_mem rag)[a := Some (n\<lparr>
                         rag_next := (if next_node \<noteq> None then next_node else rag_next n),
                         rag_data := (if data \<noteq> None then data else rag_data n)\<rparr>)]\<rparr>))"
  proof
    assume "ht_contains (rag_ht rag) key"
    then obtain p where "ht_get_node (rag_ht rag) key = Some p" by (auto simp: ht_contains_get_node)
    from RAG_hard_insert_present[OF assms this, of "data" next_node]
    show "\<exists>a n. ht_search (rag_ht rag) key = Some a \<and> node_at (node_mem rag) a = Some n \<and>
              RAG_hard_insert rag key data next_node =
                Some (if next_node \<noteq> None \<and> data \<noteq> None then UPDATED_NEXT_DATA
                      else if next_node \<noteq> None then UPDATED_NEXT
                      else if data \<noteq> None then UPDATED_DATA
                      else NO_UPDATE,
                      rag\<lparr>node_mem := (node_mem rag)[a := Some (n\<lparr>
                         rag_next := (if next_node \<noteq> None then next_node else rag_next n),
                         rag_data := (if data \<noteq> None then data else rag_data n)\<rparr>)]\<rparr>)" .
  qed
  have B: "\<not> ht_contains (rag_ht rag) key \<longrightarrow>
           (\<exists>rag'. RAG_hard_insert rag key data next_node = Some (ADDED_NODE, rag') \<and>
                   RAG_insert rag key data next_node = Some (ADDED_NODE, rag'))"
  proof
    assume "\<not> ht_contains (rag_ht rag) key"
    then have "ht_get_node (rag_ht rag) key = None" by (simp add: ht_contains_get_node)
    from RAG_add_result[OF assms this, of "data" next_node]
    show "\<exists>rag'. RAG_hard_insert rag key data next_node = Some (ADDED_NODE, rag') \<and>
                   RAG_insert rag key data next_node = Some (ADDED_NODE, rag')" by blast
  qed
  have C: "\<exists>st rag1 rag2 a n.
            RAG_hard_insert rag key (Some d1) None = Some (st, rag1) \<and>
            RAG_hard_insert rag1 key (Some d2) None = Some (UPDATED_DATA, rag2) \<and>
            ht_search (rag_ht rag2) key = Some a \<and> node_at (node_mem rag2) a = Some n \<and>
            rag_data n = Some d2"
  proof -
    from RAG_hard_insert_step[OF assms, of key "Some d1" None] obtain st rag1 ps1 rs1 where
      r1: "RAG_hard_insert rag key (Some d1) None = Some (st, rag1)" "rag_inv rag1 ps1 rs1"
        and ps1: "ps1 = (if \<not> ht_contains (rag_ht rag) key \<and> key_type key = PROCESS_T then ps @ [key] else ps)"
        and rs1: "rs1 = (if \<not> ht_contains (rag_ht rag) key \<and> key_type key \<noteq> PROCESS_T then rs @ [key] else rs)"
        and c1: "compare (rag_ht rag1) = compare (rag_ht rag)"
      by blast
    have "\<exists>k0\<in>set (ps1 @ rs1). compare (rag_ht rag) (Some k0) (Some key) = 0"
    proof (cases "ht_contains (rag_ht rag) key")
      case True
      with rag_invD(7)[OF assms, of key] ps1 rs1 show ?thesis by simp
    next
      case False
      with ps1 rs1 have "key \<in> set (ps1 @ rs1)" by (cases "key_type key = PROCESS_T") simp_all
      with callbacks_ok_refl[OF cb, of key] show ?thesis by blast
    qed
    with rag_invD(7)[OF r1(2), of key] c1 have "ht_contains (rag_ht rag1) key" by simp
    then obtain p where p: "ht_get_node (rag_ht rag1) key = Some p" by (auto simp: ht_contains_get_node)
    from RAG_hard_insert_present[OF r1(2) p, of "Some d2" None] obtain a n where
      an: "ht_search (rag_ht rag1) key = Some a" "node_at (node_mem rag1) a = Some n"
        "RAG_hard_insert rag1 key (Some d2) None =
           Some (UPDATED_DATA, rag1\<lparr>node_mem := (node_mem rag1)[a := Some (n\<lparr>rag_next := rag_next n, rag_data := Some d2\<rparr>)]\<rparr>)"
      by auto
    let ?rag2 = "rag1\<lparr>node_mem := (node_mem rag1)[a := Some (n\<lparr>rag_next := rag_next n, rag_data := Some d2\<rparr>)]\<rparr>"
    from node_at_Some_less[OF an(2)]
    have "node_at (node_mem ?rag2) a = Some (n\<lparr>rag_next := rag_next n, rag_data := Some d2\<rparr>)"
      by (simp add: node_at_def)
    moreover have "ht_search (rag_ht ?rag2) key = Some a" using an(1) by simp
    ultimately show ?thesis using r1(1) an(3) by force
  qed
  from A B C show ?thesis by blast
qed


theorem hard_insert_overwrite_witness:
  "rag_inv (RAG_create ckey_compare ckey_hash :: (nat, nat) RAG) [] [] \<and>
   (\<exists>rag1 rag2 a n.
      RAG_hard_insert (RAG_create ckey_compare ckey_hash :: (nat, nat) RAG)
        \<lparr>key_type = RESOURCE_T, key_id = 3\<rparr> (Some 11) None = Some (ADDED_NODE, rag1) \<and>
      RAG_insert (RAG_create ckey_compare ckey_hash :: (nat, nat) RAG)
        \<lparr>key_type = RESOURCE_T, key_id = 3\<rparr> (Some 11) None = Some (ADDED_NODE, rag1) \<and>
      RAG_hard_insert rag1 \<lparr>key_type = RESOURCE_T, key_id = 3\<rparr> (Some 22) None = Some (UPDATED_DATA, rag2) \<and>
      ht_search (rag_ht rag2) \<lparr>key_type = RESOURCE_T, key_id = 3\<rparr> = Some a \<and>
      node_at (node_mem rag2) a = Some n \<and> rag_data n = Some 22 \<and>
      ht_contains (rag_ht rag2) \<lparr>key_type = RESOURCE_T, key_id = 3\<rparr> \<and>
      map_option fst (RAG_hard_insert rag2 \<lparr>key_type = RESOURCE_T, key_id = 3\<rparr> None None) = Some NO_UPDATE \<and>
      map_option fst (RAG_hard_insert rag2 \<lparr>key_type = RESOURCE_T, key_id = 3\<rparr> (Some 33) (Some 0)) =
        Some UPDATED_NEXT_DATA)"
proof -
  let ?R = "RAG_create ckey_compare ckey_hash :: (nat, nat) RAG"
  let ?K = "\<lparr>key_type = RESOURCE_T, key_id = 3\<rparr> :: nat ckey"
  have inv0: "rag_inv ?R [] []" by (rule RAG_create_inv[OF ckey_callbacks_ok])
  have nc: "\<not> ht_contains (rag_ht ?R) ?K" by (rule RAG_create_absent[OF ckey_callbacks_ok])
  from hard_insert_overwrite[OF inv0, of ?K "Some 11" None 11 22] nc obtain rag1' where
    e0: "RAG_hard_insert ?R ?K (Some 11) None = Some (ADDED_NODE, rag1')"
        "RAG_insert ?R ?K (Some 11) None = Some (ADDED_NODE, rag1')"
    by blast
  from hard_insert_overwrite[OF inv0, of ?K "Some 11" None 11 22] obtain st rag1 rag2 a n where
    ex: "RAG_hard_insert ?R ?K (Some 11) None = Some (st, rag1)"
        "RAG_hard_insert rag1 ?K (Some 22) None = Some (UPDATED_DATA, rag2)"
        "ht_search (rag_ht rag2) ?K = Some a" "node_at (node_mem rag2) a = Some n"
        "rag_data n = Some 22"
    by blast
  from e0(1) ex(1) have same: "st = ADDED_NODE" "rag1' = rag1" by simp_all
  from RAG_hard_insert_step[OF inv0, of ?K "Some 11" None] ex(1) nc
  have inv1: "rag_inv rag1 [] [?K]" and c1: "compare (rag_ht rag1) = ckey_compare"
    by (auto simp: RAG_create_fields)
  from rag_invD(7)[OF inv1, of ?K] c1 have p1: "ht_contains (rag_ht rag1) ?K"
    by (simp add: ckey_compare_def)
  from RAG_hard_insert_step[OF inv1, of ?K "Some 22" None] ex(2) p1
  have inv2: "rag_inv rag2 [] [?K]" and c2: "compare (rag_ht rag2) = ckey_compare"
    by (auto simp: c1)
  from rag_invD(7)[OF inv2, of ?K] c2 have p2: "ht_contains (rag_ht rag2) ?K"
    by (simp add: ckey_compare_def)
  from hard_insert_overwrite[OF inv2, of ?K None None] p2
  have n1: "map_option fst (RAG_hard_insert rag2 ?K None None) = Some NO_UPDATE" by auto
  from hard_insert_overwrite[OF inv2, of ?K "Some 33" "Some 0"] p2
  have n2: "map_option fst (RAG_hard_insert rag2 ?K (Some 33) (Some 0)) = Some UPDATED_NEXT_DATA" by auto
  from inv0 e0 same ex p2 n1 n2 show ?thesis by blast
qed


text \<open>
  Claim C3 (the counters). After any sequence of \<open>RAG_insert\<close> and \<open>RAG_hard_insert\<close>
  calls on a newly created graph, the graph is well formed for some key lists \<open>ps\<close> and
  \<open>rs\<close> (the keys of the two order lists: pairwise different, of the type of their list,
  and together the keys of the node table), and \<open>n_processes\<close> and \<open>n_resources\<close> are the
  lengths of \<open>ps\<close> and \<open>rs\<close> as 64-bit words. On every graph, \<open>RAG_increment\<close> adds one
  to the counter of the given type and changes nothing else; \<open>RAG_decrement\<close> returns the
  graph as it is when the counter of the given type is 0, and otherwise takes one from that
  counter and changes nothing else.
\<close>

theorem counter_consistency:
  assumes "callbacks_ok cmp h" "list_all is_insert ops"
  shows "(\<exists>rag ps rs. RAG_run ops (RAG_create cmp h) = Some rag \<and> rag_inv rag ps rs \<and>
            n_processes rag = of_nat (length ps) \<and> n_resources rag = of_nat (length rs)) \<and>
         RAG_increment r PROCESS_T = r\<lparr>n_processes := n_processes r + 1\<rparr> \<and>
         RAG_increment r RESOURCE_T = r\<lparr>n_resources := n_resources r + 1\<rparr> \<and>
         RAG_decrement r PROCESS_T =
           (if n_processes r = 0 then r else r\<lparr>n_processes := n_processes r - 1\<rparr>) \<and>
         RAG_decrement r RESOURCE_T =
           (if n_resources r = 0 then r else r\<lparr>n_resources := n_resources r - 1\<rparr>)"
proof -
  from RAG_run_inserts[OF assms(2) RAG_create_inv[OF assms(1)]]
  have "\<exists>rag ps rs. RAG_run ops (RAG_create cmp h) = Some rag \<and> rag_inv rag ps rs \<and>
            n_processes rag = of_nat (length ps) \<and> n_resources rag = of_nat (length rs)"
    by (simp add: RAG_create_fields) blast
  moreover have "RAG_increment r PROCESS_T = r\<lparr>n_processes := n_processes r + 1\<rparr>"
    "RAG_increment r RESOURCE_T = r\<lparr>n_resources := n_resources r + 1\<rparr>"
    by (simp_all add: RAG_increment_def)
  moreover have "RAG_decrement r PROCESS_T =
           (if n_processes r = 0 then r else r\<lparr>n_processes := n_processes r - 1\<rparr>)"
    "RAG_decrement r RESOURCE_T =
           (if n_resources r = 0 then r else r\<lparr>n_resources := n_resources r - 1\<rparr>)"
    by (simp_all add: RAG_decrement_def word_gt_0)
  ultimately show ?thesis by blast
qed

theorem counter_consistency_witness:
  "callbacks_ok ckey_compare ckey_hash \<and>
   list_all is_insert
     [Op_insert \<lparr>key_type = PROCESS_T, key_id = 7::nat\<rparr> (Some 11) None,
      Op_hard_insert \<lparr>key_type = RESOURCE_T, key_id = 3\<rparr> None (Some 0),
      Op_insert \<lparr>key_type = PROCESS_T, key_id = 7\<rparr> (Some (22::nat)) (Some 1)] \<and>
   (\<exists>rag ps rs.
      RAG_run
        [Op_insert \<lparr>key_type = PROCESS_T, key_id = 7::nat\<rparr> (Some 11) None,
         Op_hard_insert \<lparr>key_type = RESOURCE_T, key_id = 3\<rparr> None (Some 0),
         Op_insert \<lparr>key_type = PROCESS_T, key_id = 7\<rparr> (Some (22::nat)) (Some 1)]
        (RAG_create ckey_compare ckey_hash) = Some rag \<and>
      rag_inv rag ps rs \<and> n_processes rag = of_nat (length ps) \<and> n_resources rag = of_nat (length rs)) \<and>
   map_option n_processes
     (RAG_run
        [Op_insert \<lparr>key_type = PROCESS_T, key_id = 7::nat\<rparr> (Some 11) None,
         Op_hard_insert \<lparr>key_type = RESOURCE_T, key_id = 3\<rparr> None (Some 0),
         Op_insert \<lparr>key_type = PROCESS_T, key_id = 7\<rparr> (Some (22::nat)) (Some 1)]
        (RAG_create ckey_compare ckey_hash)) = Some 1 \<and>
   map_option n_resources
     (RAG_run
        [Op_insert \<lparr>key_type = PROCESS_T, key_id = 7::nat\<rparr> (Some 11) None,
         Op_hard_insert \<lparr>key_type = RESOURCE_T, key_id = 3\<rparr> None (Some 0),
         Op_insert \<lparr>key_type = PROCESS_T, key_id = 7\<rparr> (Some (22::nat)) (Some 1)]
        (RAG_create ckey_compare ckey_hash)) = Some 1"
proof -
  let ?ops = "[Op_insert \<lparr>key_type = PROCESS_T, key_id = 7\<rparr> (Some 11) None,
      Op_hard_insert \<lparr>key_type = RESOURCE_T, key_id = 3\<rparr> None (Some 0),
      Op_insert \<lparr>key_type = PROCESS_T, key_id = 7\<rparr> (Some (22::nat)) (Some 1)] :: (nat, nat) RAG_op list"
  have i: "list_all is_insert ?ops" by simp
  have n: "map_option n_processes (RAG_run ?ops (RAG_create ckey_compare ckey_hash)) = Some 1"
    "map_option n_resources (RAG_run ?ops (RAG_create ckey_compare ckey_hash)) = Some 1"
    by code_simp+
  from counter_consistency[OF ckey_callbacks_ok i]
  have "\<exists>rag ps rs. RAG_run ?ops (RAG_create ckey_compare ckey_hash) = Some rag \<and>
      rag_inv rag ps rs \<and> n_processes rag = of_nat (length ps) \<and> n_resources rag = of_nat (length rs)"
    by blast
  with ckey_callbacks_ok i n show ?thesis by blast
qed

text \<open>
  The claim as stated lets \<open>RAG_increment\<close> and \<open>RAG_decrement\<close> take part in the
  sequence. After one insert of a process key and one \<open>RAG_decrement\<close> the counter is 0
  while the key is in the node table and in the process list; after one \<open>RAG_increment\<close>
  on a new graph the counter is 1 and the process list is empty.
\<close>

theorem counter_after_decrement_counterexample:
  "map_option n_processes
     (RAG_run [Op_insert \<lparr>key_type = PROCESS_T, key_id = 7\<rparr> (Some 11) None, Op_decrement PROCESS_T]
        (RAG_create ckey_compare ckey_hash :: (nat, nat) RAG)) = Some 0 \<and>
   map_option (\<lambda>r. ht_contains (rag_ht r) \<lparr>key_type = PROCESS_T, key_id = 7\<rparr>)
     (RAG_run [Op_insert \<lparr>key_type = PROCESS_T, key_id = 7\<rparr> (Some 11) None, Op_decrement PROCESS_T]
        (RAG_create ckey_compare ckey_hash :: (nat, nat) RAG)) = Some True \<and>
   map_option (\<lambda>r. dll_items (proc_key_list r) [0])
     (RAG_run [Op_insert \<lparr>key_type = PROCESS_T, key_id = 7\<rparr> (Some 11) None, Op_decrement PROCESS_T]
        (RAG_create ckey_compare ckey_hash :: (nat, nat) RAG)) =
     Some [Some \<lparr>key_type = PROCESS_T, key_id = 7\<rparr>] \<and>
   map_option n_processes
     (RAG_run [Op_increment PROCESS_T] (RAG_create ckey_compare ckey_hash :: (nat, nat) RAG)) = Some 1 \<and>
   map_option (\<lambda>r. head (proc_key_list r))
     (RAG_run [Op_increment PROCESS_T] (RAG_create ckey_compare ckey_hash :: (nat, nat) RAG)) = Some None"
  by code_simp



text \<open>
  Claim C4 (single-slot back-reference). In a well-formed graph with order lists \<open>ps\<close> and
  \<open>rs\<close> in which every \<open>next\<close> edge leads to a node, \<open>RAG_convert_to_undirected\<close> returns,
  changes nothing but the node memory, and visits the nodes of the keys of \<open>ps\<close> and then
  those of \<open>rs\<close>, each key having a node; at each visited node with a \<open>next\<close> it sets the
  \<open>_prev\<close> of that next node to the visited node. So after the call every node \<open>b\<close> is
  as before except for \<open>_prev\<close>, which is the last node in this order whose \<open>next\<close> is
  \<open>b\<close>, and is as before when no visited node has \<open>b\<close> as its \<open>next\<close>.
\<close>

theorem single_slot_back_reference:
  assumes "rag_inv rag ps rs" "edges_valid (node_mem rag)"
  shows "\<exists>mem'. RAG_convert_to_undirected rag = Some (rag\<lparr>node_mem := mem'\<rparr>) \<and>
           map (ht_search (rag_ht rag)) (ps @ rs) = map Some (node_order (rag_ht rag) (ps @ rs)) \<and>
           mem' = fold (\<lambda>a m. set_prev m a) (node_order (rag_ht rag) (ps @ rs)) (node_mem rag) \<and>
           length mem' = length (node_mem rag) \<and>
           (\<forall>b. node_at mem' b =
              map_option
                (\<lambda>m. m\<lparr>rag_prev :=
                   (if pointing_to (node_mem rag) b (node_order (rag_ht rag) (ps @ rs)) = []
                    then rag_prev m
                    else Some (last (pointing_to (node_mem rag) b (node_order (rag_ht rag) (ps @ rs)))))\<rparr>)
                (node_at (node_mem rag) b))"
proof -
  let ?t = "rag_ht rag"
  let ?f = "\<lambda>a m. set_prev m a"
  let ?mem1 = "fold ?f (node_order ?t ps) (node_mem rag)"
  let ?mem2 = "fold ?f (node_order ?t rs) ?mem1"
  from rag_invD(2)[OF assms(1)] obtain aps where
    aps: "dll_chain (cells (proc_key_list rag)) None (head (proc_key_list rag)) aps (tail (proc_key_list rag))"
      "map (data_at (cells (proc_key_list rag))) aps = map Some ps"
    by (auto simp: dll_inv_def dll_items_def)
  from rag_invD(3)[OF assms(1)] obtain ars where
    ars: "dll_chain (cells (res_key_list rag)) None (head (res_key_list rag)) ars (tail (res_key_list rag))"
      "map (data_at (cells (res_key_list rag))) ars = map Some rs"
    by (auto simp: dll_inv_def dll_items_def)
  have all: "\<forall>k\<in>set (ps @ rs). \<exists>a. ht_search ?t k = Some a \<and> node_at (node_mem rag) a \<noteq> None"
    using rag_list_nodes[OF assms(1)] by blast
  then have p: "\<forall>k\<in>set ps. \<exists>a. ht_search ?t k = Some a \<and> node_at (node_mem rag) a \<noteq> None"
    by simp
  have r: "\<forall>k\<in>set rs. \<exists>a. ht_search ?t k = Some a \<and> node_at ?mem1 a \<noteq> None"
  proof
    fix k assume "k \<in> set rs"
    with all obtain a where "ht_search ?t k = Some a" "\<exists>y. node_at (node_mem rag) a = Some y" by fastforce
    then show "\<exists>a. ht_search ?t k = Some a \<and> node_at ?mem1 a \<noteq> None"
      using fold_set_prev_keeps[of "node_order ?t ps" "node_mem rag" a] by auto
  qed
  have l1: "undirected_loop (proc_key_list rag) ?t (head (proc_key_list rag)) (node_mem rag) = Some ?mem1"
    by (rule undirected_loop_fold[OF aps p assms(2)])
  have l2: "undirected_loop (res_key_list rag) ?t (head (res_key_list rag)) ?mem1 = Some ?mem2"
    by (rule undirected_loop_fold[OF ars r edges_valid_fold[OF assms(2)]])
  have m2: "?mem2 = fold ?f (node_order ?t (ps @ rs)) (node_mem rag)"
    by (simp add: node_order_append)
  have 1: "RAG_convert_to_undirected rag = Some (rag\<lparr>node_mem := ?mem2\<rparr>)"
    by (simp add: RAG_convert_to_undirected_def l1 l2)
  have 2: "map (ht_search ?t) (ps @ rs) = map Some (node_order ?t (ps @ rs))"
    by (rule node_order_all) (use all in blast)
  have 3: "length ?mem2 = length (node_mem rag)" by simp
  have 4: "\<forall>b. node_at ?mem2 b =
              map_option
                (\<lambda>m. m\<lparr>rag_prev :=
                   (if pointing_to (node_mem rag) b (node_order ?t (ps @ rs)) = []
                    then rag_prev m
                    else Some (last (pointing_to (node_mem rag) b (node_order ?t (ps @ rs)))))\<rparr>)
                (node_at (node_mem rag) b)"
    unfolding m2 by (simp add: fold_set_prev_node_at)
  from 1 2 3 4 m2 show ?thesis by blast
qed

text \<open>
  A resource at address 0, then a process, a resource and a process whose \<open>next\<close> is that
  resource, at the addresses 1, 2 and 3. The order of the visits is 1, 3 (the processes), 0, 2
  (the resources), and the \<open>_prev\<close> of node 0 ends as 2, the resource inserted before the
  last process.
\<close>


theorem single_slot_back_reference_witness:
  "\<exists>rag mem'.
      RAG_run
        [Op_insert \<lparr>key_type = RESOURCE_T, key_id = 3::nat\<rparr> None None,
         Op_insert \<lparr>key_type = PROCESS_T, key_id = 2\<rparr> None (Some 0),
         Op_insert \<lparr>key_type = RESOURCE_T, key_id = 6\<rparr> None (Some 0),
         Op_insert \<lparr>key_type = PROCESS_T, key_id = 5\<rparr> (None :: nat option) (Some 0)]
        (RAG_create ckey_compare ckey_hash) = Some rag \<and>
      rag_inv rag [\<lparr>key_type = PROCESS_T, key_id = 2\<rparr>, \<lparr>key_type = PROCESS_T, key_id = 5\<rparr>]
                  [\<lparr>key_type = RESOURCE_T, key_id = 3\<rparr>, \<lparr>key_type = RESOURCE_T, key_id = 6\<rparr>] \<and>
      edges_valid (node_mem rag) \<and>
      node_order (rag_ht rag)
        [\<lparr>key_type = PROCESS_T, key_id = 2\<rparr>, \<lparr>key_type = PROCESS_T, key_id = 5\<rparr>,
         \<lparr>key_type = RESOURCE_T, key_id = 3\<rparr>, \<lparr>key_type = RESOURCE_T, key_id = 6\<rparr>] = [1, 3, 0, 2] \<and>
      pointing_to (node_mem rag) 0 [1, 3, 0, 2] = [1, 3, 2] \<and>
      RAG_convert_to_undirected rag = Some (rag\<lparr>node_mem := mem'\<rparr>) \<and>
      map_option rag_prev (node_at mem' 0) = Some (Some 2) \<and>
      map_option rag_prev (node_at mem' 2) = Some None"
proof -
  let ?R = "RAG_create ckey_compare ckey_hash :: (nat, nat) RAG"
  let ?B = "\<lparr>key_type = RESOURCE_T, key_id = 3\<rparr> :: nat ckey"
  let ?A = "\<lparr>key_type = PROCESS_T, key_id = 2\<rparr> :: nat ckey"
  let ?D = "\<lparr>key_type = RESOURCE_T, key_id = 6\<rparr> :: nat ckey"
  let ?C = "\<lparr>key_type = PROCESS_T, key_id = 5\<rparr> :: nat ckey"
  let ?ops = "[Op_insert ?B None None, Op_insert ?A None (Some 0), Op_insert ?D None (Some 0),
               Op_insert ?C None (Some 0)] :: (nat, nat) RAG_op list"
  have inv0: "rag_inv ?R [] []" by (rule RAG_create_inv[OF ckey_callbacks_ok])
  have n0: "\<not> ht_contains (rag_ht ?R) ?B" by (rule RAG_create_absent[OF ckey_callbacks_ok])
  from RAG_insert_step[OF inv0, of ?B None None] n0 obtain st1 rag1 where
    r1: "RAG_insert ?R ?B None None = Some (st1, rag1)" and inv1: "rag_inv rag1 [] [?B]"
    and c1: "compare (rag_ht rag1) = ckey_compare"
    by (auto simp: RAG_create_fields)
  from rag_invD(7)[OF inv1, of ?A] c1 have n1: "\<not> ht_contains (rag_ht rag1) ?A"
    by (simp add: ckey_compare_def)
  from RAG_insert_step[OF inv1, of ?A None "Some 0"] n1 obtain st2 rag2 where
    r2: "RAG_insert rag1 ?A None (Some 0) = Some (st2, rag2)" and inv2: "rag_inv rag2 [?A] [?B]"
    and c2: "compare (rag_ht rag2) = ckey_compare"
    by (auto simp: c1)
  from rag_invD(7)[OF inv2, of ?D] c2 have n2: "\<not> ht_contains (rag_ht rag2) ?D"
    by (simp add: ckey_compare_def)
  from RAG_insert_step[OF inv2, of ?D None "Some 0"] n2 obtain st3 rag3 where
    r3: "RAG_insert rag2 ?D None (Some 0) = Some (st3, rag3)" and inv3: "rag_inv rag3 [?A] [?B, ?D]"
    and c3: "compare (rag_ht rag3) = ckey_compare"
    by (auto simp: c2)
  from rag_invD(7)[OF inv3, of ?C] c3 have n3: "\<not> ht_contains (rag_ht rag3) ?C"
    by (simp add: ckey_compare_def)
  from RAG_insert_step[OF inv3, of ?C None "Some 0"] n3 obtain st4 rag4 where
    r4: "RAG_insert rag3 ?C None (Some 0) = Some (st4, rag4)" and inv4: "rag_inv rag4 [?A, ?C] [?B, ?D]"
    by (auto simp: c3)
  have run: "RAG_run ?ops ?R = Some rag4" by (simp add: r1 r2 r3 r4)
  have "map_option node_mem (RAG_run ?ops ?R) =
          Some [Some \<lparr>rag_key = ?B, rag_data = None, rag_prev = None, rag_next = None\<rparr>,
                Some \<lparr>rag_key = ?A, rag_data = None, rag_prev = None, rag_next = Some 0\<rparr>,
                Some \<lparr>rag_key = ?D, rag_data = None, rag_prev = None, rag_next = Some 0\<rparr>,
                Some \<lparr>rag_key = ?C, rag_data = None, rag_prev = None, rag_next = Some 0\<rparr>]"
    by code_simp
  then have mem: "node_mem rag4 =
          [Some \<lparr>rag_key = ?B, rag_data = None, rag_prev = None, rag_next = None\<rparr>,
           Some \<lparr>rag_key = ?A, rag_data = None, rag_prev = None, rag_next = Some 0\<rparr>,
           Some \<lparr>rag_key = ?D, rag_data = None, rag_prev = None, rag_next = Some 0\<rparr>,
           Some \<lparr>rag_key = ?C, rag_data = None, rag_prev = None, rag_next = Some 0\<rparr>]"
    unfolding run by simp
  have "map_option (\<lambda>r. node_order (rag_ht r) [?A, ?C, ?B, ?D]) (RAG_run ?ops ?R) = Some [1, 3, 0, 2]"
    by code_simp
  then have ord: "node_order (rag_ht rag4) [?A, ?C, ?B, ?D] = [1, 3, 0, 2]"
    unfolding run by simp
  have ev: "edges_valid (node_mem rag4)" unfolding mem by code_simp
  have pt: "pointing_to (node_mem rag4) 0 [1, 3, 0, 2] = [1, 3, 2]" unfolding mem by code_simp
  have pt2: "pointing_to (node_mem rag4) 2 [1, 3, 0, 2] = []" unfolding mem by code_simp
  from single_slot_back_reference[OF inv4 ev] obtain mem' where
    cv: "RAG_convert_to_undirected rag4 = Some (rag4\<lparr>node_mem := mem'\<rparr>)"
    and pr: "\<And>b. node_at mem' b =
              map_option
                (\<lambda>m. m\<lparr>rag_prev :=
                   (if pointing_to (node_mem rag4) b (node_order (rag_ht rag4) ([?A, ?C] @ [?B, ?D])) = []
                    then rag_prev m
                    else Some (last (pointing_to (node_mem rag4) b
                                       (node_order (rag_ht rag4) ([?A, ?C] @ [?B, ?D])))))\<rparr>)
                (node_at (node_mem rag4) b)"
    by blast
  have p0: "map_option rag_prev (node_at mem' 0) = Some (Some 2)"
    using pr[of 0] unfolding append.simps ord pt by (simp add: mem node_at_def)
  have p2: "map_option rag_prev (node_at mem' 2) = Some None"
    using pr[of 2] unfolding append.simps ord pt2 by (simp add: mem node_at_def)
  from run inv4 ev ord pt cv p0 p2 show ?thesis by blast
qed

section \<open>The claim about the list with an index\<close>





end
